theory Spec2Isabelle
  imports Complex_Main
begin

section \<open>Draggable cursors and spans of cursortools.py\<close>

text \<open>
  The module hangs two lists on a matplotlib axes object (\<open>ax.curlist\<close> and
  \<open>ax.spanlist\<close>) and keeps the display id of a cursor inside the text of its tag
  artist, as a decimal integer in parentheses. The embedding keeps the objects in two
  stores (one of cursors, one of spans) addressed by handles, so that the references
  between a span and its two cursors are as in the source; the lists of the axes hold
  handles. Python exceptions are values of \<open>error\<close>. Positions are Python scalars,
  modelled as reals. What the host does with an artist (drawing, the canvas) is not part
  of the state; the line's position, its line style, the text of the tag and the
  polygon of the fill are.
\<close>

subsection \<open>Text: the pattern \<open>\((\d+)\)\<close>, \<open>int\<close> and \<open>str\<close>\<close>

definition is_digit :: "char \<Rightarrow> bool" where
  "is_digit c = (c \<in> set ''0123456789'')"

text \<open>
  The pattern anchored at the head of a string: an opening parenthesis, one or more
  digits (greedy; no shorter run can be followed by a closing parenthesis), a closing
  parenthesis. The result is group 1 and the text after the match.
\<close>

definition match_at :: "string \<Rightarrow> (string \<times> string) option" where
  "match_at s =
     (case s of
        [] \<Rightarrow> None
      | c # r \<Rightarrow>
          if c \<noteq> CHR ''('' then None
          else if takeWhile is_digit r = [] then None
          else (case dropWhile is_digit r of
                  [] \<Rightarrow> None
                | d # r' \<Rightarrow> if d = CHR '')'' then Some (takeWhile is_digit r, r') else None))"

text \<open>\<open>re.search(r'\((\d+)\)', s)\<close>: group 1 of the leftmost match, \<open>None\<close> for no match.\<close>

fun re_search :: "string \<Rightarrow> string option" where
  "re_search [] = None"
| "re_search (c # cs) =
     (case match_at (c # cs) of Some (ds, r) \<Rightarrow> Some ds | None \<Rightarrow> re_search cs)"

text \<open>Group 0 of a match is group 1 in its parentheses.\<close>

definition group0 :: "string \<Rightarrow> string" where
  "group0 ds = ''('' @ ds @ '')''"

lemma match_at_shorter: "match_at s = Some (ds, r) \<Longrightarrow> length r < length s"
proof -
  assume m: "match_at s = Some (ds, r)"
  then obtain c t where s: "s = c # t" by (cases s) (auto simp: match_at_def)
  from m s obtain d where "dropWhile is_digit t = d # r"
    by (auto simp: match_at_def split: if_splits list.splits)
  then have "length (d # r) \<le> length t"
    by (metis length_dropWhile_le)
  with s show ?thesis by simp
qed

text \<open>\<open>re.sub(r'\(\d+\)', '', s)\<close>: every match, left to right, is removed.\<close>

function re_sub :: "string \<Rightarrow> string" where
  "re_sub [] = []"
| "re_sub (c # cs) =
     (case match_at (c # cs) of Some (ds, r) \<Rightarrow> re_sub r | None \<Rightarrow> c # re_sub cs)"
  by pat_completeness auto
termination
  by (relation "measure length") (auto dest: match_at_shorter)

definition digit_val :: "char \<Rightarrow> int" where
  "digit_val c = int (of_char c) - 48"

text \<open>\<open>int(s)\<close> on a run of digits (the only argument the module gives it).\<close>

definition int_of_str :: "string \<Rightarrow> int" where
  "int_of_str ds = foldl (\<lambda>a c. 10 * a + digit_val c) 0 ds"

definition digit_char :: "nat \<Rightarrow> char" where
  "digit_char n = ''0123456789'' ! n"

fun str_nat :: "nat \<Rightarrow> string" where
  "str_nat n = (if n < 10 then [digit_char n] else str_nat (n div 10) @ [digit_char (n mod 10)])"

declare str_nat.simps [simp del]

text \<open>\<open>str(i)\<close> of a Python integer.\<close>

definition str :: "int \<Rightarrow> string" where
  "str i = (if i < 0 then CHR ''-'' # str_nat (nat (- i)) else str_nat (nat i))"

subsection \<open>Objects and the axes\<close>

type_synonym handle = nat

datatype error =
  AttributeError | ValueError | KeyError | IndexError | UnboundLocalError | TypeError

definition bind :: "error + 'a \<Rightarrow> ('a \<Rightarrow> error + 'b) \<Rightarrow> error + 'b" where
  "bind m f = (case m of Inl e \<Rightarrow> Inl e | Inr x \<Rightarrow> f x)"

text \<open>
  A \<open>DragCursor\<close>. \<open>press\<close> is \<open>_press\<close> (\<open>None\<close>, or the line's first point and the
  pointer's data coordinates at the press); \<open>xpos\<close> and \<open>ls\<close> are the position and
  line style of \<open>cline\<close>; \<open>tag\<close> is the text of the tag artist, \<open>None\<close> while the
  object has no \<open>tag\<close> attribute yet; \<open>kw_ls\<close> is \<open>_kwargs['linestyle']\<close>;
  \<open>spanobj\<close> is the owning span, absent on a cursor that is not part of one;
  \<open>cids\<close> says whether the three callbacks are connected to the canvas.
\<close>

record cursor =
  press :: "(real \<times> real \<times> real \<times> real) option"
  mode :: string
  orient :: string
  color :: string
  xpos :: real
  ls :: string
  kw_ls :: string
  tag :: "string option"
  spanobj :: "handle option"
  cids :: bool

text \<open>
  A \<open>DragSpan\<close>: its two cursors, its colour, the corner points of the \<open>vspan\<close>
  polygon, whether that artist is still on the axes, and whether the span's press
  callback is connected.
\<close>

record span =
  span_low :: handle
  span_high :: handle
  span_color :: string
  vspan :: "(real \<times> real) list"
  vspan_on_axes :: bool
  span_cid :: bool

datatype placement = PlaceCursor | PlaceSpan

text \<open>
  The axes with what the module attaches to it and reads from it. \<open>curlist\<close> and
  \<open>spanlist\<close> are \<open>None\<close> while the attribute does not exist. \<open>cursors\<close> and
  \<open>spans\<close> are the object stores: a handle is an index, and a new object gets the
  next index. \<open>fig_cidpress\<close> is the attribute \<open>cidpress\<close> of the axes' figure:
  the placement callback that is connected, if any.
\<close>

record axes =
  curlist :: "handle list option"
  spanlist :: "handle list option"
  cursors :: "cursor list"
  spans :: "span list"
  navigate_mode :: "string option"
  xlim :: "real \<times> real"
  fig_cidpress :: "placement option"

text \<open>
  A pointer event as a handler sees it: whether \<open>event.inaxes\<close> is this axes, the
  button, the data coordinates, and the host's hit tests \<open>artist.contains(event)\<close>
  for a line at a position and for a polygon.
\<close>

record event =
  inaxes :: bool
  button :: int
  xdata :: real
  ydata :: real
  hits_line :: "real \<Rightarrow> bool"
  hits_patch :: "(real \<times> real) list \<Rightarrow> bool"

text \<open>
  Reading and updating an object of a store. A handle stands for a Python reference,
  so the operations below are applied to handles of objects that exist (indices
  inside the store).
\<close>

definition cur :: "axes \<Rightarrow> handle \<Rightarrow> cursor" where
  "cur ax h = cursors ax ! h"

definition upd_cur :: "handle \<Rightarrow> (cursor \<Rightarrow> cursor) \<Rightarrow> axes \<Rightarrow> axes" where
  "upd_cur h f ax = ax\<lparr>cursors := (cursors ax)[h := f (cursors ax ! h)]\<rparr>"

definition upd_span :: "handle \<Rightarrow> (span \<Rightarrow> span) \<Rightarrow> axes \<Rightarrow> axes" where
  "upd_span s f ax = ax\<lparr>spans := (spans ax)[s := f (spans ax ! s)]\<rparr>"

subsection \<open>Display ids\<close>

text \<open>
  \<open>DragCursor.get_id\<close>: \<open>int(re.search(...).group(1))\<close>. Without a match
  \<open>re.search\<close> gives \<open>None\<close> and \<open>.group\<close> raises \<open>AttributeError\<close>, as does a
  missing \<open>tag\<close> attribute.
\<close>

definition get_id :: "cursor \<Rightarrow> error + int" where
  "get_id c =
     (case tag c of
        None \<Rightarrow> Inl AttributeError
      | Some t \<Rightarrow> (case re_search t of None \<Rightarrow> Inl AttributeError | Some ds \<Rightarrow> Inr (int_of_str ds)))"

text \<open>
  The body of the \<open>try\<close> in \<open>initag\<close>'s scan, with its two \<open>except\<close> clauses: an id
  to append, or nothing.
\<close>

definition scan_id :: "cursor \<Rightarrow> int option" where
  "scan_id c =
     (case tag c of
        None \<Rightarrow> None
      | Some t \<Rightarrow> (case re_search t of None \<Rightarrow> None | Some ds \<Rightarrow> Some (int_of_str ds)))"

definition curlist_of :: "axes \<Rightarrow> handle list" where
  "curlist_of ax = (case curlist ax of None \<Rightarrow> [] | Some l \<Rightarrow> l)"

definition spanlist_of :: "axes \<Rightarrow> handle list" where
  "spanlist_of ax = (case spanlist ax of None \<Rightarrow> [] | Some l \<Rightarrow> l)"

text \<open>\<open>ID_list\<close> of \<open>initag\<close>: the ids found in the tags of \<open>ax.curlist\<close>, in list order.\<close>

definition ID_list :: "axes \<Rightarrow> int list" where
  "ID_list ax = List.map_filter (\<lambda>h. scan_id (cur ax h)) (curlist_of ax)"

text \<open>
  \<open>initag(self)\<close>: the first statement reads \<open>self.ax.spanlist\<close> for a
  \<open>vertspan\<close> cursor and \<open>self.ax.curlist\<close> for a \<open>vertical\<close> one, outside of
  any \<open>try\<close>, so an axes without that attribute raises \<open>AttributeError\<close>; for any
  other orientation the method returns at once. The scan then iterates
  \<open>self.ax.curlist\<close>. The new tag text is \<open>max(ID_list) + 1\<close> in parentheses, or
  \<open>(1)\<close> for an empty \<open>ID_list\<close>. It is called by the constructor, after the
  object was appended to \<open>ax.curlist\<close>.
\<close>

definition initag :: "handle \<Rightarrow> axes \<Rightarrow> error + axes" where
  "initag h ax =
     (if orient (cur ax h) = ''vertspan'' \<and> spanlist ax = None then Inl AttributeError
      else if orient (cur ax h) = ''vertical'' \<and> curlist ax = None then Inl AttributeError
      else if orient (cur ax h) \<noteq> ''vertspan'' \<and> orient (cur ax h) \<noteq> ''vertical'' then Inr ax
      else if curlist ax = None then Inl AttributeError
      else
        let tagstr = (if ID_list ax \<noteq> [] then ''('' @ str (Max (set (ID_list ax)) + 1) @ '')''
                      else ''(1)'')
        in Inr (upd_cur h (\<lambda>c. c\<lparr>tag := Some tagstr\<rparr>) ax))"

text \<open>
  \<open>DragCursor.__init__(ax, pos, orient, mode, **kwargs)\<close>, with the two keyword
  arguments the class reads (\<open>color\<close> and \<open>linestyle\<close>). The object joins
  \<open>ax.curlist\<close> first; the line exists only for the two supported orientations, and
  \<open>_connect\<close> raises \<open>AttributeError\<close> without it. An exception of \<open>initag\<close>
  leaves the constructor.
\<close>

definition DragCursor_init ::
  "axes \<Rightarrow> real \<Rightarrow> string \<Rightarrow> string \<Rightarrow> string \<Rightarrow> string \<Rightarrow> error + (handle \<times> axes)" where
  "DragCursor_init ax pos ori md kw_color kw_linestyle =
     (let h = length (cursors ax);
          c = \<lparr>press = None, mode = md, orient = ori, color = kw_color, xpos = pos,
               ls = kw_linestyle, kw_ls = kw_linestyle, tag = None, spanobj = None,
               cids = False\<rparr>;
          ax1 = ax\<lparr>curlist := Some (curlist_of ax @ [h]), cursors := cursors ax @ [c]\<rparr>
      in case initag h ax1 of
           Inl e \<Rightarrow> Inl e
         | Inr ax2 \<Rightarrow>
             if ori = ''vertical'' \<or> ori = ''vertspan''
             then Inr (h, upd_cur h (\<lambda>c. c\<lparr>cids := True\<rparr>) ax2)
             else Inl AttributeError)"

text \<open>\<open>placecursor(ax, pos)\<close> with the default properties; \<open>None\<close> is \<open>pos='center'\<close>.\<close>

definition placecursor :: "axes \<Rightarrow> real option \<Rightarrow> error + (handle \<times> axes)" where
  "placecursor ax pos =
     (let p = (case pos of
                 None \<Rightarrow> fst (xlim ax) + (snd (xlim ax) - fst (xlim ax)) / 2
               | Some x \<Rightarrow> x)
      in DragCursor_init ax p ''vertical'' ''interact'' ''r'' ''--'')"

text \<open>The corner points of \<open>ax.axvspan(xmin, xmax)\<close>.\<close>

definition axvspan :: "real \<Rightarrow> real \<Rightarrow> (real \<times> real) list" where
  "axvspan xmin xmax = [(xmin, 0), (xmin, 1), (xmax, 1), (xmax, 0)]"

text \<open>
  \<open>DragSpan.__init__(ax, low_pos, high_pos, curprops, spanprops)\<close> with the default
  properties: the span joins \<open>ax.spanlist\<close>, the two cursors are made, each gets its
  \<open>spanobj\<close>, and the fill is drawn between the two positions.
\<close>

definition DragSpan_init :: "axes \<Rightarrow> real \<Rightarrow> real \<Rightarrow> error + (handle \<times> axes)" where
  "DragSpan_init ax low_pos high_pos =
     (let s = length (spans ax);
          ax0 = ax\<lparr>spanlist := Some (spanlist_of ax @ [s])\<rparr>
      in case DragCursor_init ax0 low_pos ''vertspan'' ''interact'' ''r'' ''--'' of
           Inl e \<Rightarrow> Inl e
         | Inr (lo, ax1) \<Rightarrow>
            (case DragCursor_init ax1 high_pos ''vertspan'' ''interact'' ''r'' ''--'' of
               Inl e \<Rightarrow> Inl e
             | Inr (hi, ax2) \<Rightarrow>
                 let ax3 = upd_cur hi (\<lambda>c. c\<lparr>spanobj := Some s\<rparr>)
                             (upd_cur lo (\<lambda>c. c\<lparr>spanobj := Some s\<rparr>) ax2);
                     sp = \<lparr>span_low = lo, span_high = hi, span_color = ''r'',
                           vspan = axvspan low_pos high_pos, vspan_on_axes = True,
                           span_cid = True\<rparr>
                 in Inr (s, ax3\<lparr>spans := spans ax3 @ [sp]\<rparr>)))"

datatype spanpos = Center | At real | Pair real real

text \<open>
  \<open>placespan(ax, pos)\<close>: a pair gives the two positions; otherwise they lie around
  the centre of the axes or around the given number, a sixth of the axis span apart
  from the centre, or a twelfth from the number.
\<close>

definition placespan :: "axes \<Rightarrow> spanpos \<Rightarrow> error + (handle \<times> axes)" where
  "placespan ax pos =
     (let axspan = snd (xlim ax) - fst (xlim ax);
          limfrac = axspan / 6;
          axcenter = fst (xlim ax) + axspan / 2
      in case pos of
           Pair lo hi \<Rightarrow> DragSpan_init ax lo hi
         | Center \<Rightarrow> DragSpan_init ax (axcenter - limfrac) (axcenter + limfrac)
         | At p \<Rightarrow> DragSpan_init ax (p - limfrac / 2) (p + limfrac / 2))"

subsection \<open>Accessors and mutators\<close>

definition set_mode :: "handle \<Rightarrow> string \<Rightarrow> axes \<Rightarrow> axes" where
  "set_mode h m ax =
     upd_cur h (\<lambda>c. c\<lparr>mode := m,
                       ls := (if m = ''interact'' then kw_ls c
                              else if m = ''fixed'' then ''-.'' else ls c)\<rparr>) ax"

definition set_color :: "handle \<Rightarrow> string \<Rightarrow> axes \<Rightarrow> axes" where
  "set_color h col ax = upd_cur h (\<lambda>c. c\<lparr>color := col\<rparr>) ax"

definition get_tag :: "cursor \<Rightarrow> error + string" where
  "get_tag c = (case tag c of None \<Rightarrow> Inl AttributeError | Some t \<Rightarrow> Inr (re_sub t))"

text \<open>
  \<open>DragCursor.set_tag(tag_str)\<close>: the new text is \<open>tag_str\<close> followed by the first
  id token of the old text. \<open>tag_str\<close> is \<open>None\<close> for a value that is not a string
  (the \<open>TypeError\<close> branch: the empty cell of a table comes back as a float).
\<close>

definition set_tag :: "handle \<Rightarrow> string option \<Rightarrow> axes \<Rightarrow> error + axes" where
  "set_tag h tag_str ax =
     (case tag (cur ax h) of
        None \<Rightarrow> Inl AttributeError
      | Some name_str \<Rightarrow>
         (case re_search name_str of
            None \<Rightarrow> Inl AttributeError
          | Some ds \<Rightarrow>
              let id_str = group0 ds;
                  new_tag = (case tag_str of Some t \<Rightarrow> t @ id_str | None \<Rightarrow> id_str)
              in Inr (upd_cur h (\<lambda>c. c\<lparr>tag := Some new_tag\<rparr>) ax)))"

text \<open>\<open>DragSpan.set_color\<close> and \<open>DragSpan.set_tag\<close>.\<close>

definition span_set_color :: "handle \<Rightarrow> string \<Rightarrow> axes \<Rightarrow> axes" where
  "span_set_color s col ax =
     set_color (span_high (spans ax ! s)) col
       (set_color (span_low (spans ax ! s)) col
          (upd_span s (\<lambda>sp. sp\<lparr>span_color := col\<rparr>) ax))"

definition span_set_tag :: "handle \<Rightarrow> string option \<Rightarrow> axes \<Rightarrow> error + axes" where
  "span_set_tag s tag_str ax =
     bind (set_tag (span_low (spans ax ! s)) tag_str ax)
       (set_tag (span_high (spans ax ! s)) tag_str)"

text \<open>
  \<open>getcur(cur_id, ax)\<close>: the first cursor of \<open>ax.curlist\<close> whose id is \<open>cur_id\<close>;
  after the loop the function prints a message and returns \<open>None\<close>.
\<close>

fun getcur_loop :: "int \<Rightarrow> axes \<Rightarrow> handle list \<Rightarrow> error + handle option" where
  "getcur_loop cur_id ax [] = Inr None"
| "getcur_loop cur_id ax (h # hs) =
     (case get_id (cur ax h) of
        Inl e \<Rightarrow> Inl e
      | Inr i \<Rightarrow> if cur_id = i then Inr (Some h) else getcur_loop cur_id ax hs)"

definition getcur :: "int \<Rightarrow> axes \<Rightarrow> error + handle option" where
  "getcur cur_id ax =
     (case curlist ax of None \<Rightarrow> Inl AttributeError | Some l \<Rightarrow> getcur_loop cur_id ax l)"

subsection \<open>Removal\<close>

text \<open>
  \<open>remcur(cur)\<close> for one cursor object, as \<open>_on_press\<close> and \<open>delspan\<close> call it
  (the list \<open>cursors\<close> is \<open>[cur]\<close> and the loop body runs once): the artists are
  removed, the object leaves \<open>ax.curlist\<close> (\<open>list.remove\<close> raises \<open>ValueError\<close>
  for an object that is not in it) and its callbacks are disconnected.
\<close>

definition remcur :: "handle \<Rightarrow> axes \<Rightarrow> error + axes" where
  "remcur h ax =
     (case curlist ax of
        None \<Rightarrow> Inl AttributeError
      | Some l \<Rightarrow>
          if h \<in> set l
          then Inr (upd_cur h (\<lambda>c. c\<lparr>cids := False\<rparr>) (ax\<lparr>curlist := Some (remove1 h l)\<rparr>))
          else Inl ValueError)"

text \<open>\<open>DragSpan.delspan\<close>.\<close>

definition delspan :: "handle \<Rightarrow> axes \<Rightarrow> error + axes" where
  "delspan s ax =
     bind (remcur (span_low (spans ax ! s)) ax) (\<lambda>ax1.
     bind (remcur (span_high (spans ax ! s)) ax1) (\<lambda>ax2.
       if \<not> vspan_on_axes (spans ax2 ! s) then Inl ValueError
       else (case spanlist ax2 of
               None \<Rightarrow> Inl AttributeError
             | Some l \<Rightarrow>
                 if s \<in> set l
                 then Inr (upd_span s (\<lambda>sp. sp\<lparr>vspan_on_axes := False, span_cid := False\<rparr>)
                             (ax2\<lparr>spanlist := Some (remove1 s l)\<rparr>))
                 else Inl ValueError)))"

subsection \<open>Pointer handlers\<close>

text \<open>
  \<open>DragCursor._on_press\<close>. The press state is stored for any button before the
  button is looked at; the line of an \<open>axvline\<close> starts at \<open>y = 0\<close>.
\<close>

definition on_press :: "handle \<Rightarrow> event \<Rightarrow> axes \<Rightarrow> error + axes" where
  "on_press h ev ax =
     (if \<not> inaxes ev then Inr ax
      else if mode (cur ax h) = ''fixed'' then Inr ax
      else if navigate_mode ax \<noteq> None then Inr ax
      else if \<not> hits_line ev (xpos (cur ax h)) then Inr ax
      else
        let ax1 = upd_cur h (\<lambda>c. c\<lparr>press := Some (xpos c, 0, xdata ev, ydata ev)\<rparr>) ax
        in if button ev = 3 \<and> orient (cur ax h) \<noteq> ''vertspan'' then remcur h ax1
           else Inr ax1)"

text \<open>\<open>DragSpan.updatespan\<close>: the polygon through the two cursors' current positions.\<close>

definition updatespan :: "handle \<Rightarrow> axes \<Rightarrow> axes" where
  "updatespan s ax =
     (let low_val = xpos (cur ax (span_low (spans ax ! s)));
          high_val = xpos (cur ax (span_high (spans ax ! s)))
      in upd_span s (\<lambda>sp. sp\<lparr>vspan := [(low_val, 0), (low_val, 1), (high_val, 1),
                                         (high_val, 0), (low_val, 0)]\<rparr>) ax)"

text \<open>
  \<open>DragCursor._on_motion\<close>. A cursor of orientation \<open>vertspan\<close> without a
  \<open>spanobj\<close> attribute raises \<open>AttributeError\<close>.
\<close>

definition on_motion :: "handle \<Rightarrow> event \<Rightarrow> axes \<Rightarrow> error + axes" where
  "on_motion h ev ax =
     (if press (cur ax h) = None then Inr ax
      else if \<not> inaxes ev then Inr ax
      else
        let ax1 = upd_cur h (\<lambda>c. c\<lparr>xpos := xdata ev\<rparr>) ax
        in if orient (cur ax h) = ''vertspan''
           then (case spanobj (cur ax h) of
                   None \<Rightarrow> Inl AttributeError
                 | Some s \<Rightarrow> Inr (updatespan s ax1))
           else Inr ax1)"

text \<open>\<open>DragCursor._on_release\<close>.\<close>

definition on_release :: "handle \<Rightarrow> event \<Rightarrow> axes \<Rightarrow> axes" where
  "on_release h ev ax = upd_cur h (\<lambda>c. c\<lparr>press := None\<rparr>) ax"

text \<open>\<open>DragSpan._on_press\<close>.\<close>

definition span_on_press :: "handle \<Rightarrow> event \<Rightarrow> axes \<Rightarrow> error + axes" where
  "span_on_press s ev ax =
     (if \<not> inaxes ev then Inr ax
      else if navigate_mode ax \<noteq> None then Inr ax
      else if mode (cur ax (span_low (spans ax ! s))) = ''fixed'' then Inr ax
      else if \<not> hits_patch ev (vspan (spans ax ! s)) then Inr ax
      else if button ev = 3 then delspan s ax
      else Inr ax)"

text \<open>
  What the canvas does with an event for one cursor: it calls the cursor's handler of
  that kind if the cursor's callbacks are connected. A sequence of events, each for a
  cursor, runs in order and stops at the first exception.
\<close>

datatype pointer = Press event | Motion event | Release event

definition deliver :: "handle \<times> pointer \<Rightarrow> axes \<Rightarrow> error + axes" where
  "deliver he ax =
     (if \<not> cids (cur ax (fst he)) then Inr ax
      else (case snd he of
              Press ev \<Rightarrow> on_press (fst he) ev ax
            | Motion ev \<Rightarrow> on_motion (fst he) ev ax
            | Release ev \<Rightarrow> Inr (on_release (fst he) ev ax)))"

fun run :: "(handle \<times> pointer) list \<Rightarrow> axes \<Rightarrow> error + axes" where
  "run [] ax = Inr ax"
| "run (he # hes) ax = (case deliver he ax of Inl e \<Rightarrow> Inl e | Inr ax' \<Rightarrow> run hes ax')"

subsection \<open>Setting the mode of a selection\<close>

datatype selector = All | Id int | Ids "int list" | Objs "handle list"

text \<open>
  The two nested loops of \<open>setcursormode\<close> over the ids and over \<open>ax.curlist\<close>:
  the cursors whose id is one of the ids, id by id.
\<close>

fun ids_inner :: "int \<Rightarrow> axes \<Rightarrow> handle list \<Rightarrow> error + handle list" where
  "ids_inner ii ax [] = Inr []"
| "ids_inner ii ax (cj # cjs) =
     (case get_id (cur ax cj) of
        Inl e \<Rightarrow> Inl e
      | Inr i \<Rightarrow> (case ids_inner ii ax cjs of
                   Inl e \<Rightarrow> Inl e
                 | Inr r \<Rightarrow> Inr (if ii = i then cj # r else r)))"

fun ids_outer :: "int list \<Rightarrow> axes \<Rightarrow> handle list \<Rightarrow> error + handle list" where
  "ids_outer [] ax l = Inr []"
| "ids_outer (ii # iis) ax l =
     (case ids_inner ii ax l of
        Inl e \<Rightarrow> Inl e
      | Inr r \<Rightarrow> (case ids_outer iis ax l of Inl e \<Rightarrow> Inl e | Inr r' \<Rightarrow> Inr (r @ r')))"

text \<open>
  \<open>setcursormode(cur_mode, cursors, ax)\<close>. A single id becomes a list of one; a
  sequence is taken as ids when its first element is an integer (an empty sequence
  raises \<open>IndexError\<close> there), and any other sequence selects nothing.
\<close>

definition setcursormode :: "string \<Rightarrow> selector \<Rightarrow> axes \<Rightarrow> error + axes" where
  "setcursormode cur_mode cursors_sel ax =
     (let by_ids = (\<lambda>iis. case curlist ax of
                       None \<Rightarrow> Inl AttributeError
                     | Some l \<Rightarrow> ids_outer iis ax l)
      in bind
          (case cursors_sel of
             All \<Rightarrow> (case curlist ax of None \<Rightarrow> Inl AttributeError | Some l \<Rightarrow> Inr l)
           | Id i \<Rightarrow> by_ids [i]
           | Ids iis \<Rightarrow> if iis = [] then Inl IndexError else by_ids iis
           | Objs hs \<Rightarrow> if hs = [] then Inl IndexError else Inr [])
          (\<lambda>cur_objs. Inr (fold (\<lambda>ci. set_mode ci cur_mode) cur_objs ax)))"

subsection \<open>Placement by middle click\<close>

text \<open>
  \<open>curonclick(ax)\<close> and \<open>spanonclick(ax)\<close>. The argument is \<open>None\<close> for the default
  \<open>'current'\<close>; the second argument is the current axes of pyplot. The local
  variable \<open>fig\<close> is bound on the default path only, and reading an unbound local
  raises \<open>UnboundLocalError\<close>. On the default path a callback that was connected
  before is disconnected and the new one is connected.
\<close>

definition curonclick :: "axes option \<Rightarrow> axes \<Rightarrow> error + axes" where
  "curonclick ax_arg gca =
     (let ax_fig = (case ax_arg of None \<Rightarrow> (gca, Some gca) | Some a \<Rightarrow> (a, None))
      in case snd ax_fig of
           None \<Rightarrow> Inl UnboundLocalError
         | Some fig \<Rightarrow> Inr (fig\<lparr>fig_cidpress := Some PlaceCursor\<rparr>))"

definition spanonclick :: "axes option \<Rightarrow> axes \<Rightarrow> error + axes" where
  "spanonclick ax_arg gca =
     (let ax_fig = (case ax_arg of None \<Rightarrow> (gca, Some gca) | Some a \<Rightarrow> (a, None))
      in case snd ax_fig of
           None \<Rightarrow> Inl UnboundLocalError
         | Some fig \<Rightarrow> Inr (fig\<lparr>fig_cidpress := Some PlaceSpan\<rparr>))"

text \<open>The connected callback \<open>onclick(event)\<close>; \<open>in_any\<close> is the truth of \<open>event.inaxes\<close>.\<close>

definition onclick :: "bool \<Rightarrow> event \<Rightarrow> axes \<Rightarrow> error + axes" where
  "onclick in_any ev ax =
     (case fig_cidpress ax of
        None \<Rightarrow> Inr ax
      | Some what \<Rightarrow>
          if in_any \<and> button ev = 2
          then (case what of
                  PlaceCursor \<Rightarrow> map_sum id snd (placecursor ax (Some (xdata ev)))
                | PlaceSpan \<Rightarrow> map_sum id snd (placespan ax (At (xdata ev))))
          else Inr ax)"

subsection \<open>Saving and loading\<close>

text \<open>
  One row of the table, with the columns \<open>id\<close>, \<open>tag\<close>, \<open>xpos\<close>, \<open>type\<close>,
  \<open>mode\<close> and \<open>color\<close>. A \<open>tag\<close> cell is \<open>None\<close> when it holds no string (the
  table reader gives a float for an empty cell).
\<close>

record row =
  row_id :: int
  row_tag :: "string option"
  row_xpos :: real
  row_type :: string
  row_mode :: string
  row_color :: string

text \<open>The dictionary \<open>cur_props\<close> of one cursor.\<close>

definition cur_props :: "cursor \<Rightarrow> error + row" where
  "cur_props ci =
     bind (get_tag ci) (\<lambda>t.
     bind (get_id ci) (\<lambda>i.
       Inr \<lparr>row_id = i, row_tag = Some t, row_xpos = xpos ci, row_type = orient ci,
            row_mode = mode ci, row_color = color ci\<rparr>))"

fun collect :: "cursor list \<Rightarrow> error + row list" where
  "collect [] = Inr []"
| "collect (ci # rest) =
     (case cur_props ci of
        Inl e \<Rightarrow> Inl e
      | Inr r \<Rightarrow> (case collect rest of Inl e \<Rightarrow> Inl e | Inr rs \<Rightarrow> Inr (r # rs)))"

text \<open>
  \<open>savecurinfo(ax)\<close>: the rows of the cursors of \<open>ax.curlist\<close>, sorted by id; the
  result is the table the function returns and writes. Selecting the columns of a
  table without rows raises \<open>KeyError\<close>. The sort is the library's; it is modelled by
  a stable sort, and rows of equal id may come out in another order there.
\<close>

definition savecurinfo :: "axes \<Rightarrow> error + row list" where
  "savecurinfo ax =
     (case curlist ax of
        None \<Rightarrow> Inl AttributeError
      | Some l \<Rightarrow>
          bind (collect (map (cur ax) l)) (\<lambda>rows.
            if rows = [] then Inl KeyError else Inr (sort_key row_id rows)))"

text \<open>
  Writing the table to a file and reading it back is the work of the table library,
  outside the module, and it is not modelled. \<open>as_written r r'\<close> is the condition
  that the reader gives the row \<open>r'\<close> for the written row \<open>r\<close> with every cell as
  it was written, where an empty tag may come back as a cell without a string (the
  reader gives a float for an empty field, which is what the \<open>TypeError\<close> branch of
  \<open>set_tag\<close> is for). The condition fails for a text that the reader takes for a
  number or for a missing value, such as \<open>NA\<close>.
\<close>

definition as_written :: "row \<Rightarrow> row \<Rightarrow> bool" where
  "as_written r r' = (r' = r \<or> row_tag r = Some [] \<and> r' = r\<lparr>row_tag := None\<rparr>)"

text \<open>The local function \<open>initcur(cur_obj, row)\<close> of \<open>loadcurinfo\<close>.\<close>

definition initcur :: "handle \<Rightarrow> row \<Rightarrow> axes \<Rightarrow> error + axes" where
  "initcur cur_obj r ax =
     set_tag cur_obj (row_tag r) (set_color cur_obj (row_color r) (set_mode cur_obj (row_mode r) ax))"

text \<open>
  The loop of \<open>loadcurinfo\<close> over the rows; \<open>last_row\<close> is the buffered first row
  of a pair (\<open>None\<close> for the empty series). A row of any other type is passed over.
\<close>

fun load_rows :: "row option \<Rightarrow> row list \<Rightarrow> axes \<Rightarrow> error + axes" where
  "load_rows last_row [] ax = Inr ax"
| "load_rows last_row (r # rows) ax =
     (if row_type r = ''vertical'' then
        (case placecursor ax (Some (row_xpos r)) of
           Inl e \<Rightarrow> Inl e
         | Inr (cur_obj, ax1) \<Rightarrow>
             (case initcur cur_obj r ax1 of
                Inl e \<Rightarrow> Inl e
              | Inr ax2 \<Rightarrow> load_rows last_row rows ax2))
      else if row_type r = ''vertspan'' then
        (case last_row of
           None \<Rightarrow> load_rows (Some r) rows ax
         | Some lr \<Rightarrow>
             (case placespan ax (Pair (row_xpos lr) (row_xpos r)) of
                Inl e \<Rightarrow> Inl e
              | Inr (span_obj, ax1) \<Rightarrow>
                  let ax2 = span_set_color span_obj (row_color r) ax1
                  in (case initcur (span_low (spans ax2 ! span_obj)) lr ax2 of
                        Inl e \<Rightarrow> Inl e
                      | Inr ax3 \<Rightarrow>
                          (case initcur (span_high (spans ax3 ! span_obj)) r ax3 of
                             Inl e \<Rightarrow> Inl e
                           | Inr ax4 \<Rightarrow> load_rows None rows ax4))))
      else load_rows last_row rows ax)"

definition loadcurinfo :: "axes \<Rightarrow> row list \<Rightarrow> error + axes" where
  "loadcurinfo ax cur_df = load_rows None cur_df ax"

subsection \<open>Renaming\<close>

datatype curarg = CurStr string | CurInt int | CurObj handle | CurOther

text \<open>The local function \<open>setnewname\<close> of \<open>setcurtag\<close>.\<close>

definition setnewname :: "handle \<Rightarrow> string \<Rightarrow> bool \<Rightarrow> axes \<Rightarrow> error + axes" where
  "setnewname cur_obj new_str keep_id ax =
     (case tag (cur ax cur_obj) of
        None \<Rightarrow> Inl AttributeError
      | Some old_str \<Rightarrow>
          if keep_id
          then (case re_search old_str of
                  None \<Rightarrow> Inl AttributeError
                | Some ds \<Rightarrow> Inr (upd_cur cur_obj (\<lambda>c. c\<lparr>tag := Some (new_str @ group0 ds)\<rparr>) ax))
          else Inr (upd_cur cur_obj (\<lambda>c. c\<lparr>tag := Some new_str\<rparr>) ax))"

text \<open>
  The loop of the integer branch: the last cursor of the list whose id is \<open>n\<close>
  stays bound to \<open>cur_obj\<close>; a tag without an id is passed over.
\<close>

fun find_int :: "int \<Rightarrow> axes \<Rightarrow> handle list \<Rightarrow> handle option \<Rightarrow> error + handle option" where
  "find_int n ax [] cur_obj = Inr cur_obj"
| "find_int n ax (ci # rest) cur_obj =
     (case tag (cur ax ci) of
        None \<Rightarrow> Inl AttributeError
      | Some ci_tag \<Rightarrow>
          (case re_search ci_tag of
             None \<Rightarrow> find_int n ax rest cur_obj
           | Some ds \<Rightarrow> find_int n ax rest (if n = int_of_str ds then Some ci else cur_obj)))"

text \<open>
  \<open>setcurtag(cur, new_str, ax, keep_id)\<close>. The outer option of \<open>target\<close> is the early
  \<open>return\<close> of the string branch (no match, or more than one); the inner one is
  \<open>cur_obj\<close>, unbound when the integer branch finds no cursor.
\<close>

definition setcurtag :: "curarg \<Rightarrow> string \<Rightarrow> bool \<Rightarrow> axes \<Rightarrow> error + axes" where
  "setcurtag cur_arg new_str keep_id ax =
     (let target =
        (case cur_arg of
           CurStr str_arg \<Rightarrow>
             (case curlist ax of
                None \<Rightarrow> Inl AttributeError
              | Some l \<Rightarrow>
                  if \<exists>ci \<in> set l. tag (cur ax ci) = None then Inl AttributeError
                  else (case filter (\<lambda>ci. tag (cur ax ci) = Some str_arg) l of
                          [cur_obj] \<Rightarrow> Inr (Some (Some cur_obj))
                        | _ \<Rightarrow> Inr None))
         | CurInt n \<Rightarrow>
             (case curlist ax of
                None \<Rightarrow> Inl AttributeError
              | Some l \<Rightarrow> map_sum id Some (find_int n ax l None))
         | CurObj cur_obj \<Rightarrow> Inr (Some (Some cur_obj))
         | CurOther \<Rightarrow> Inl TypeError)
      in bind target (\<lambda>t.
           case t of
             None \<Rightarrow> Inr ax
           | Some None \<Rightarrow> Inl UnboundLocalError
           | Some (Some cur_obj) \<Rightarrow>
               if orient (cur ax cur_obj) = ''vertspan'' then
                 (case spanobj (cur ax cur_obj) of
                    None \<Rightarrow> Inl AttributeError
                  | Some s \<Rightarrow>
                      bind (setnewname (span_low (spans ax ! s)) new_str keep_id ax)
                        (setnewname (span_high (spans ax ! s)) new_str keep_id))
               else if orient (cur ax cur_obj) = ''vertical'' then
                 setnewname cur_obj new_str keep_id ax
               else Inr ax))"

section \<open>Basic facts\<close>

lemma bind_simps [simp]: "bind (Inl e) f = Inl e" "bind (Inr x) f = f x"
  by (simp_all add: bind_def)

lemma upd_cur_fields [simp]:
  "cursors (upd_cur h f ax) = (cursors ax)[h := f (cursors ax ! h)]"
  "curlist (upd_cur h f ax) = curlist ax"
  "spanlist (upd_cur h f ax) = spanlist ax"
  "spans (upd_cur h f ax) = spans ax"
  "navigate_mode (upd_cur h f ax) = navigate_mode ax"
  "xlim (upd_cur h f ax) = xlim ax"
  "fig_cidpress (upd_cur h f ax) = fig_cidpress ax"
  by (simp_all add: upd_cur_def)

lemma upd_span_fields [simp]:
  "spans (upd_span s f ax) = (spans ax)[s := f (spans ax ! s)]"
  "curlist (upd_span s f ax) = curlist ax"
  "spanlist (upd_span s f ax) = spanlist ax"
  "cursors (upd_span s f ax) = cursors ax"
  "navigate_mode (upd_span s f ax) = navigate_mode ax"
  "xlim (upd_span s f ax) = xlim ax"
  "fig_cidpress (upd_span s f ax) = fig_cidpress ax"
  by (simp_all add: upd_span_def)

lemma cur_upd_cur [simp]:
  "cur (upd_cur h f ax) h' =
     (if h' = h \<and> h < length (cursors ax) then f (cur ax h) else cur ax h')"
  by (cases "h < length (cursors ax)") (auto simp: cur_def list_update_beyond)

lemma cur_upd_span [simp]: "cur (upd_span s f ax) h = cur ax h"
  by (simp add: cur_def)

lemma curlist_of_upd [simp]:
  "curlist_of (upd_cur h f ax) = curlist_of ax"
  "curlist_of (upd_span s g ax) = curlist_of ax"
  by (simp_all add: curlist_of_def)

subsection \<open>Digits and the id pattern\<close>

lemma lt10: "n < 10 \<Longrightarrow> n \<in> {0,1,2,3,4,5,6,7,8,9::nat}"
  by auto

lemma is_digit_digit_char: "n < 10 \<Longrightarrow> is_digit (digit_char n)"
  by (drule lt10) (auto simp: is_digit_def digit_char_def)

lemma digit_val_digit_char: "n < 10 \<Longrightarrow> digit_val (digit_char n) = int n"
  by (drule lt10) (auto simp: digit_val_def digit_char_def)

lemma digit_val_nonneg: "is_digit c \<Longrightarrow> 0 \<le> digit_val c"
  by (auto simp: is_digit_def digit_val_def)

lemma str_nat_digits: "c \<in> set (str_nat n) \<Longrightarrow> is_digit c"
proof (induction n arbitrary: c rule: str_nat.induct)
  case (1 n)
  show ?case
  proof (cases "n < 10")
    case True
    with "1.prems" show ?thesis
      by (simp add: str_nat.simps [of n] is_digit_digit_char)
  next
    case False
    with "1.prems" "1.IH" show ?thesis
      by (auto simp: str_nat.simps [of n] is_digit_digit_char)
  qed
qed

lemma str_nat_nonempty: "str_nat n \<noteq> []"
  by (simp add: str_nat.simps [of n])

lemma int_of_str_snoc: "int_of_str (ds @ [c]) = 10 * int_of_str ds + digit_val c"
  by (simp add: int_of_str_def)

lemma int_of_str_str_nat: "int_of_str (str_nat n) = int n"
proof (induction n rule: str_nat.induct)
  case (1 n)
  show ?case
  proof (cases "n < 10")
    case True
    then show ?thesis
      by (simp add: str_nat.simps [of n] int_of_str_def digit_val_digit_char)
  next
    case False
    with "1.IH" have "int_of_str (str_nat n) = 10 * int (n div 10) + int (n mod 10)"
      by (simp add: str_nat.simps [of n] int_of_str_snoc digit_val_digit_char)
    then show ?thesis by presburger
  qed
qed

lemma int_of_str_nonneg: "\<forall>c \<in> set ds. is_digit c \<Longrightarrow> 0 \<le> int_of_str ds"
proof (induction ds rule: rev_induct)
  case Nil
  then show ?case by (simp add: int_of_str_def)
next
  case (snoc c ds)
  then show ?case by (simp add: int_of_str_snoc digit_val_nonneg)
qed

lemma match_at_token:
  assumes "ds \<noteq> []" and "\<forall>c \<in> set ds. is_digit c"
  shows "match_at (CHR ''('' # ds @ CHR '')'' # r) = Some (ds, r)"
proof -
  have nd: "\<not> is_digit CHR '')''" by (simp add: is_digit_def)
  from assms(2) nd have tw: "takeWhile is_digit (ds @ CHR '')'' # r) = ds"
    by (simp add: takeWhile_append2 takeWhile_tail)
  from assms(2) nd have dw: "dropWhile is_digit (ds @ CHR '')'' # r) = CHR '')'' # r"
    by (simp add: dropWhile_append2)
  from assms(1) tw dw show ?thesis
    by (simp add: match_at_def)
qed

lemma match_at_digits: "match_at s = Some (ds, r) \<Longrightarrow> ds \<noteq> [] \<and> (\<forall>c \<in> set ds. is_digit c)"
  by (auto simp: match_at_def split: list.splits if_splits dest: set_takeWhileD)

lemma re_search_digits: "re_search t = Some ds \<Longrightarrow> ds \<noteq> [] \<and> (\<forall>c \<in> set ds. is_digit c)"
proof (induction t)
  case Nil
  then show ?case by simp
next
  case (Cons c t)
  then show ?case
    by (cases "match_at (c # t)") (auto dest: match_at_digits)
qed

text \<open>A string without a match gets none by an id token put behind it, before that token.\<close>

lemma match_at_before_paren:
  assumes "match_at (c # p) = None"
  shows "match_at (c # p @ CHR ''('' # r) = None"
proof (cases "c = CHR ''(''")
  case False
  then show ?thesis by (simp add: match_at_def)
next
  case True
  have np: "\<not> is_digit CHR ''(''" by (simp add: is_digit_def)
  show ?thesis
  proof (cases "\<forall>x \<in> set p. is_digit x")
    case True
    with np have "dropWhile is_digit (p @ CHR ''('' # r) = CHR ''('' # r"
      by (simp add: dropWhile_append2)
    then show ?thesis by (simp add: match_at_def)
  next
    case False
    then have tw: "takeWhile is_digit (p @ CHR ''('' # r) = takeWhile is_digit p"
      and dw: "dropWhile is_digit (p @ CHR ''('' # r) = dropWhile is_digit p @ CHR ''('' # r"
      by (auto simp: takeWhile_append1 dropWhile_append1)
    from False have "dropWhile is_digit p \<noteq> []" by auto
    then obtain d q where dq: "dropWhile is_digit p = d # q"
      by (cases "dropWhile is_digit p") auto
    from assms True dq tw dw show ?thesis
      by (auto simp: match_at_def split: if_splits)
  qed
qed

lemma re_search_append_token:
  assumes "re_search p = None" and "ds \<noteq> []" and "\<forall>c \<in> set ds. is_digit c"
  shows "re_search (p @ group0 ds @ r) = Some ds"
  using assms(1)
proof (induction p)
  case Nil
  from assms(2,3) show ?case
    by (simp add: group0_def match_at_token)
next
  case (Cons c p)
  from Cons.prems have m: "match_at (c # p) = None" and s: "re_search p = None"
    by (auto split: option.splits)
  from m have "match_at (c # p @ CHR ''('' # ds @ CHR '')'' # r) = None"
    by (rule match_at_before_paren)
  with Cons.IH [OF s] show ?case
    by (simp add: group0_def)
qed

lemma re_sub_append_token:
  assumes "re_search p = None" and "ds \<noteq> []" and "\<forall>c \<in> set ds. is_digit c"
  shows "re_sub (p @ group0 ds) = p"
  using assms(1)
proof (induction p)
  case Nil
  from assms(2,3) show ?case
    using match_at_token [of ds "[]"] by (simp add: group0_def)
next
  case (Cons c p)
  from Cons.prems have m: "match_at (c # p) = None" and s: "re_search p = None"
    by (auto split: option.splits)
  from m have "match_at (c # p @ CHR ''('' # ds @ '')'') = None"
    by (rule match_at_before_paren)
  with Cons.IH [OF s] show ?case
    by (simp add: group0_def)
qed

lemma str_nonneg: "0 \<le> i \<Longrightarrow> str i = str_nat (nat i)"
  by (simp add: str_def)

lemma get_id_label:
  assumes "re_search p = None" and "0 \<le> i" and "tag c = Some (p @ group0 (str i))"
  shows "get_id c = Inr i" and "scan_id c = Some i"
proof -
  from assms(2) have s: "str i = str_nat (nat i)" by (rule str_nonneg)
  have "re_search (p @ group0 (str_nat (nat i)) @ []) = Some (str_nat (nat i))"
    using assms(1) by (rule re_search_append_token) (auto simp: str_nat_nonempty str_nat_digits)
  with assms(2,3) s show "get_id c = Inr i" and "scan_id c = Some i"
    by (simp_all add: get_id_def scan_id_def int_of_str_str_nat)
qed


subsection \<open>What the constructors do\<close>

text \<open>
  \<open>handles_ok\<close>: every entry of \<open>ax.curlist\<close> is an object of the store.
  \<open>new_tag\<close> is the text \<open>initag\<close> computes, \<open>new_cursor\<close> the finished object
  of the constructor, and \<open>grown\<close> the axes with one more cursor in list and store.
  A \<open>creation\<close> is a call of \<open>placecursor\<close> or \<open>placespan\<close>; \<open>n_markers\<close>
  counts the cursors a sequence of creations makes. \<open>ids_upto ax n\<close>: the cursors of
  the list carry the ids \<open>1, \<dots>, n\<close> in list order.
\<close>

definition handles_ok :: "axes \<Rightarrow> bool" where
  "handles_ok ax = (\<forall>h \<in> set (curlist_of ax). h < length (cursors ax))"

definition new_tag :: "axes \<Rightarrow> string" where
  "new_tag ax =
     (if ID_list ax \<noteq> [] then ''('' @ str (Max (set (ID_list ax)) + 1) @ '')'' else ''(1)'')"

definition new_cursor :: "axes \<Rightarrow> real \<Rightarrow> string \<Rightarrow> string \<Rightarrow> string \<Rightarrow> string \<Rightarrow> cursor" where
  "new_cursor ax pos ori md col l =
     \<lparr>press = None, mode = md, orient = ori, color = col, xpos = pos, ls = l, kw_ls = l,
      tag = Some (new_tag ax), spanobj = None, cids = True\<rparr>"

datatype creation = Cursor "real option" | Span spanpos

fun create :: "creation \<Rightarrow> axes \<Rightarrow> error + axes" where
  "create (Cursor pos) ax = map_sum id snd (placecursor ax pos)"
| "create (Span pos) ax = map_sum id snd (placespan ax pos)"

fun create_all :: "creation list \<Rightarrow> axes \<Rightarrow> error + axes" where
  "create_all [] ax = Inr ax"
| "create_all (c # cs) ax = (case create c ax of Inl e \<Rightarrow> Inl e | Inr ax' \<Rightarrow> create_all cs ax')"

fun n_markers :: "creation list \<Rightarrow> nat" where
  "n_markers [] = 0"
| "n_markers (Cursor pos # cs) = 1 + n_markers cs"
| "n_markers (Span pos # cs) = 2 + n_markers cs"

lemma map_filter_cong_set:
  "(\<And>x. x \<in> set xs \<Longrightarrow> f x = g x) \<Longrightarrow> List.map_filter f xs = List.map_filter g xs"
proof (induction xs)
  case Nil
  show ?case by (simp add: List.map_filter_simps)
next
  case (Cons a xs)
  have "List.map_filter f xs = List.map_filter g xs"
    by (rule Cons.IH) (simp add: Cons.prems)
  moreover have "f a = g a" by (simp add: Cons.prems)
  ultimately show ?case by (simp add: List.map_filter_simps split: option.split)
qed

lemma ID_list_extend:
  assumes "handles_ok ax" and "tag c = None"
  shows "ID_list (ax\<lparr>curlist := Some (curlist_of ax @ [length (cursors ax)]),
                     cursors := cursors ax @ [c]\<rparr>) = ID_list ax"
proof -
  let ?ax1 = "ax\<lparr>curlist := Some (curlist_of ax @ [length (cursors ax)]),
                     cursors := cursors ax @ [c]\<rparr>"
  have old: "scan_id (cur ?ax1 h) = scan_id (cur ax h)" if "h \<in> set (curlist_of ax)" for h
    using that assms(1) by (simp add: handles_ok_def cur_def nth_append)
  have new: "scan_id (cur ?ax1 (length (cursors ax))) = None"
    using assms(2) by (simp add: cur_def scan_id_def)
  have "ID_list ?ax1 =
      List.map_filter (\<lambda>h. scan_id (cur ?ax1 h)) (curlist_of ax) @
      List.map_filter (\<lambda>h. scan_id (cur ?ax1 h)) [length (cursors ax)]"
    by (simp add: ID_list_def curlist_of_def map_filter_def)
  also have "List.map_filter (\<lambda>h. scan_id (cur ?ax1 h)) (curlist_of ax) = ID_list ax"
    unfolding ID_list_def by (rule map_filter_cong_set) (rule old)
  also have "List.map_filter (\<lambda>h. scan_id (cur ?ax1 h)) [length (cursors ax)] = []"
    using new by (simp add: List.map_filter_simps)
  finally show ?thesis by simp
qed

lemma DragCursor_init_eq:
  assumes "handles_ok ax" and "ori = ''vertical'' \<or> ori = ''vertspan'' \<and> spanlist ax \<noteq> None"
  shows "DragCursor_init ax pos ori md col l =
           Inr (length (cursors ax),
                ax\<lparr>curlist := Some (curlist_of ax @ [length (cursors ax)]),
                   cursors := cursors ax @ [new_cursor ax pos ori md col l]\<rparr>)"
proof -
  let ?c = "\<lparr>press = None, mode = md, orient = ori, color = col, xpos = pos, ls = l,
             kw_ls = l, tag = None, spanobj = None, cids = False\<rparr>"
  let ?ax1 = "ax\<lparr>curlist := Some (curlist_of ax @ [length (cursors ax)]),
                 cursors := cursors ax @ [?c]\<rparr>"
  have ids: "ID_list ?ax1 = ID_list ax"
    using assms(1) by (rule ID_list_extend) simp
  have "initag (length (cursors ax)) ?ax1 =
          Inr (upd_cur (length (cursors ax)) (\<lambda>c. c\<lparr>tag := Some (new_tag ax)\<rparr>) ?ax1)"
    using assms(2) unfolding initag_def Let_def ids new_tag_def
    by (auto simp: cur_def)
  with assms(2) show ?thesis
    by (auto simp: DragCursor_init_def Let_def new_cursor_def upd_cur_def)
qed


definition ids_upto :: "axes \<Rightarrow> nat \<Rightarrow> bool" where
  "ids_upto ax n =
     (handles_ok ax \<and>
      map (\<lambda>h. scan_id (cur ax h)) (curlist_of ax) = map (\<lambda>i. Some (int i)) [1..<Suc n])"

lemma map_filter_Some: "List.map_filter f xs = map the (filter (\<lambda>y. y \<noteq> None) (map f xs))"
  by (induction xs) (auto simp: List.map_filter_simps)

lemma ID_list_upto: "ids_upto ax n \<Longrightarrow> ID_list ax = map int [1..<Suc n]"
  by (simp add: ids_upto_def ID_list_def map_filter_Some comp_def)

lemma Max_upto: "0 < n \<Longrightarrow> Max (set (map int [1..<Suc n])) = int n"
  by (rule Max_eqI) auto

lemma new_tag_upto: "ids_upto ax n \<Longrightarrow> new_tag ax = group0 (str (int n + 1))"
proof (cases "n = 0")
  case True
  assume "ids_upto ax n"
  with True have "ID_list ax = []" by (simp add: ID_list_upto)
  moreover have "str 1 = ''1''" by (simp add: str_def str_nat.simps digit_char_def)
  ultimately show ?thesis using True by (simp add: new_tag_def group0_def)
next
  case False
  assume "ids_upto ax n"
  then have i: "ID_list ax = map int [1..<Suc n]" by (rule ID_list_upto)
  from False have "ID_list ax \<noteq> []" unfolding i by simp
  moreover from False have "Max (set (map int [1..<Suc n])) = int n"
    by (intro Max_upto) simp
  then have "Max (set (ID_list ax)) = int n" by (simp only: i)
  ultimately show ?thesis by (simp add: new_tag_def group0_def)
qed


lemma handles_ok_extend:
  "handles_ok ax \<Longrightarrow>
   handles_ok (ax\<lparr>curlist := Some (curlist_of ax @ [length (cursors ax)]),
                  cursors := cursors ax @ [c]\<rparr>)"
  by (auto simp: handles_ok_def curlist_of_def)

lemma handles_ok_spanlist [simp]: "handles_ok (ax\<lparr>spanlist := l\<rparr>) = handles_ok ax"
  by (simp add: handles_ok_def curlist_of_def)

lemma ID_list_spanlist [simp]: "ID_list (ax\<lparr>spanlist := l\<rparr>) = ID_list ax"
  by (simp add: ID_list_def curlist_of_def cur_def)

lemma new_tag_spanlist [simp]: "new_tag (ax\<lparr>spanlist := l\<rparr>) = new_tag ax"
  by (simp add: new_tag_def)

lemma new_cursor_spanlist [simp]:
  "new_cursor (ax\<lparr>spanlist := l\<rparr>) pos ori md col st = new_cursor ax pos ori md col st"
  by (simp add: new_cursor_def)

definition grown :: "axes \<Rightarrow> cursor \<Rightarrow> axes" where
  "grown ax c = ax\<lparr>curlist := Some (curlist_of ax @ [length (cursors ax)]),
                   cursors := cursors ax @ [c]\<rparr>"

lemma DragCursor_init_grown:
  assumes "handles_ok ax" and "ori = ''vertical'' \<or> ori = ''vertspan'' \<and> spanlist ax \<noteq> None"
  shows "DragCursor_init ax pos ori md col l =
           Inr (length (cursors ax), grown ax (new_cursor ax pos ori md col l))"
  using DragCursor_init_eq [OF assms] by (simp add: grown_def)

lemma handles_ok_grown: "handles_ok ax \<Longrightarrow> handles_ok (grown ax c)"
  unfolding grown_def by (rule handles_ok_extend)

lemma grown_spanlist: "grown (ax\<lparr>spanlist := l\<rparr>) c = (grown ax c)\<lparr>spanlist := l\<rparr>"
  by (simp add: grown_def curlist_of_def)

lemma DragSpan_init_eq:
  assumes "handles_ok ax"
  shows "DragSpan_init ax low_pos high_pos =
     (let s = length (spans ax);
          n = length (cursors ax);
          c1 = new_cursor ax low_pos ''vertspan'' ''interact'' ''r'' ''--'';
          c2 = new_cursor (grown ax c1) high_pos ''vertspan'' ''interact'' ''r'' ''--''
      in Inr (s, ax\<lparr>curlist := Some (curlist_of ax @ [n, Suc n]),
                     spanlist := Some (spanlist_of ax @ [s]),
                     cursors := cursors ax @ [c1\<lparr>spanobj := Some s\<rparr>, c2\<lparr>spanobj := Some s\<rparr>],
                     spans := spans ax @
                       [\<lparr>span_low = n, span_high = Suc n, span_color = ''r'',
                         vspan = axvspan low_pos high_pos, vspan_on_axes = True,
                         span_cid = True\<rparr>]\<rparr>))"
proof -
  have "DragSpan_init ax low_pos high_pos =
     (let s = length (spans ax);
          n = length (cursors ax);
          c1 = new_cursor ax low_pos ''vertspan'' ''interact'' ''r'' ''--'';
          c2 = new_cursor (grown ax c1) high_pos ''vertspan'' ''interact'' ''r'' ''--'';
          ax2 = (grown (grown ax c1) c2)\<lparr>spanlist := Some (spanlist_of ax @ [s])\<rparr>;
          ax3 = upd_cur (Suc n) (\<lambda>c. c\<lparr>spanobj := Some s\<rparr>)
                  (upd_cur n (\<lambda>c. c\<lparr>spanobj := Some s\<rparr>) ax2)
      in Inr (s, ax3\<lparr>spans := spans ax3 @
                       [\<lparr>span_low = n, span_high = Suc n, span_color = ''r'',
                         vspan = axvspan low_pos high_pos, vspan_on_axes = True,
                         span_cid = True\<rparr>]\<rparr>))"
    using assms
    by (simp add: DragSpan_init_def Let_def DragCursor_init_grown handles_ok_grown
        grown_spanlist)
      (simp add: grown_def)
  also have "\<dots> = (let s = length (spans ax);
          n = length (cursors ax);
          c1 = new_cursor ax low_pos ''vertspan'' ''interact'' ''r'' ''--'';
          c2 = new_cursor (grown ax c1) high_pos ''vertspan'' ''interact'' ''r'' ''--''
      in Inr (s, ax\<lparr>curlist := Some (curlist_of ax @ [n, Suc n]),
                     spanlist := Some (spanlist_of ax @ [s]),
                     cursors := cursors ax @ [c1\<lparr>spanobj := Some s\<rparr>, c2\<lparr>spanobj := Some s\<rparr>],
                     spans := spans ax @
                       [\<lparr>span_low = n, span_high = Suc n, span_color = ''r'',
                         vspan = axvspan low_pos high_pos, vspan_on_axes = True,
                         span_cid = True\<rparr>]\<rparr>))"
    by (simp add: Let_def grown_def upd_cur_def curlist_of_def nth_append list_update_append)
  finally show ?thesis .
qed


lemma scan_id_tag: "tag c = tag c' \<Longrightarrow> scan_id c = scan_id c'"
  by (simp add: scan_id_def)

lemma get_id_scan_id:
  "get_id c = (case scan_id c of None \<Rightarrow> Inl AttributeError | Some i \<Rightarrow> Inr i)"
  by (simp add: get_id_def scan_id_def split: option.split)

lemma ids_upto_tags:
  assumes "curlist_of ax' = curlist_of ax" and "map tag (cursors ax') = map tag (cursors ax)"
    and "ids_upto ax n"
  shows "ids_upto ax' n"
proof -
  from assms(2) have len: "length (cursors ax') = length (cursors ax)"
    by (rule map_eq_imp_length_eq)
  have "scan_id (cur ax' h) = scan_id (cur ax h)" if "h < length (cursors ax)" for h
  proof -
    from that len have "tag (cursors ax' ! h) = map tag (cursors ax') ! h" by simp
    also have "\<dots> = map tag (cursors ax) ! h" by (simp only: assms(2))
    also from that have "\<dots> = tag (cursors ax ! h)" by simp
    finally show ?thesis by (simp add: cur_def scan_id_def)
  qed
  note same = this
  from assms(3) have ok: "handles_ok ax" by (simp add: ids_upto_def)
  from ok assms(1) len have ok': "handles_ok ax'" by (simp add: handles_ok_def)
  have "map (\<lambda>h. scan_id (cur ax' h)) (curlist_of ax) =
        map (\<lambda>h. scan_id (cur ax h)) (curlist_of ax)"
  proof (rule map_cong [OF refl])
    fix h assume "h \<in> set (curlist_of ax)"
    with ok have "h < length (cursors ax)" by (simp add: handles_ok_def)
    then show "scan_id (cur ax' h) = scan_id (cur ax h)" by (rule same)
  qed
  with assms(1,3) ok' show ?thesis by (simp add: ids_upto_def)
qed

lemma ids_upto_grown:
  assumes "ids_upto ax n" and "tag c = Some (new_tag ax)"
  shows "ids_upto (grown ax c) (Suc n)"
proof -
  from assms(1) have ok: "handles_ok ax" by (simp add: ids_upto_def)
  have nt: "tag c = Some ([] @ group0 (str (int n + 1)))"
    using assms by (simp add: new_tag_upto)
  have new: "scan_id c = Some (int n + 1)"
    by (rule get_id_label(2) [OF _ _ nt]) simp_all
  have old: "map (\<lambda>h. scan_id (cur (grown ax c) h)) (curlist_of ax) =
             map (\<lambda>h. scan_id (cur ax h)) (curlist_of ax)"
  proof (rule map_cong [OF refl])
    fix h assume "h \<in> set (curlist_of ax)"
    with ok have "h < length (cursors ax)" by (simp add: handles_ok_def)
    then show "scan_id (cur (grown ax c) h) = scan_id (cur ax h)"
      by (simp add: grown_def cur_def nth_append)
  qed
  have "map (\<lambda>h. scan_id (cur (grown ax c) h)) (curlist_of (grown ax c)) =
        map (\<lambda>h. scan_id (cur ax h)) (curlist_of ax) @ [Some (int n + 1)]"
    using old new by (simp add: grown_def curlist_of_def cur_def)
  with assms(1) handles_ok_grown [OF ok, of c] show ?thesis
    by (simp add: ids_upto_def add.commute)
qed

lemma ids_upto_DragCursor_init:
  assumes "ids_upto ax n" and "ori = ''vertical'' \<or> ori = ''vertspan'' \<and> spanlist ax \<noteq> None"
  shows "\<exists>ax'. DragCursor_init ax pos ori md col l = Inr (length (cursors ax), ax') \<and>
           ids_upto ax' (Suc n)"
proof -
  from assms(1) have ok: "handles_ok ax" by (simp add: ids_upto_def)
  have "ids_upto (grown ax (new_cursor ax pos ori md col l)) (Suc n)"
    using assms(1) by (rule ids_upto_grown) (simp add: new_cursor_def)
  with DragCursor_init_grown [OF ok assms(2)] show ?thesis by simp
qed

lemma ids_upto_DragSpan_init:
  assumes "ids_upto ax n"
  shows "\<exists>ax'. DragSpan_init ax lo hi = Inr (length (spans ax), ax') \<and>
           ids_upto ax' (Suc (Suc n))"
proof -
  from assms have ok: "handles_ok ax" by (simp add: ids_upto_def)
  let ?c1 = "new_cursor ax lo ''vertspan'' ''interact'' ''r'' ''--''"
  let ?c2 = "new_cursor (grown ax ?c1) hi ''vertspan'' ''interact'' ''r'' ''--''"
  have 1: "ids_upto (grown ax ?c1) (Suc n)"
    using assms by (rule ids_upto_grown) (simp add: new_cursor_def)
  have 2: "ids_upto (grown (grown ax ?c1) ?c2) (Suc (Suc n))"
    using 1 by (rule ids_upto_grown) (simp add: new_cursor_def)
  obtain ax' where eq: "DragSpan_init ax lo hi = Inr (length (spans ax), ax')"
    and cl: "curlist_of ax' = curlist_of (grown (grown ax ?c1) ?c2)"
    and tg: "map tag (cursors ax') = map tag (cursors (grown (grown ax ?c1) ?c2))"
    using DragSpan_init_eq [OF ok, of lo hi]
    by (simp add: Let_def grown_def curlist_of_def)
  from cl tg 2 have "ids_upto ax' (Suc (Suc n))" by (rule ids_upto_tags)
  with eq show ?thesis by blast
qed

lemma ids_upto_create:
  assumes "ids_upto ax n"
  shows "\<exists>ax'. create c ax = Inr ax' \<and> ids_upto ax' (n_markers [c] + n)"
proof (cases c)
  case (Cursor pos)
  obtain p where p: "placecursor ax pos = DragCursor_init ax p ''vertical'' ''interact'' ''r'' ''--''"
    by (simp add: placecursor_def Let_def)
  obtain ax' where "DragCursor_init ax p ''vertical'' ''interact'' ''r'' ''--'' =
      Inr (length (cursors ax), ax')" and "ids_upto ax' (Suc n)"
    using ids_upto_DragCursor_init [OF assms, of "''vertical''" p "''interact''" "''r''" "''--''"]
    by auto
  with p show ?thesis unfolding Cursor by simp
next
  case (Span pos)
  obtain lo hi where p: "placespan ax pos = DragSpan_init ax lo hi"
    by (cases pos) (simp_all add: placespan_def Let_def)
  obtain ax' where "DragSpan_init ax lo hi = Inr (length (spans ax), ax')"
    and "ids_upto ax' (Suc (Suc n))"
    using ids_upto_DragSpan_init [OF assms, of lo hi] by auto
  with p show ?thesis unfolding Span by simp
qed

lemma n_markers_Cons: "n_markers (c # cs) = n_markers [c] + n_markers cs"
  by (cases c) simp_all

lemma ids_upto_create_all:
  "ids_upto ax n \<Longrightarrow> \<exists>ax'. create_all cs ax = Inr ax' \<and> ids_upto ax' (n_markers cs + n)"
proof (induction cs arbitrary: ax n)
  case Nil
  then show ?case by simp
next
  case (Cons c cs)
  from ids_upto_create [OF Cons.prems, of c]
  obtain ax1 where 1: "create c ax = Inr ax1" and 2: "ids_upto ax1 (n_markers [c] + n)"
    by blast
  from Cons.IH [OF 2] obtain ax' where 3: "create_all cs ax1 = Inr ax'"
    and 4: "ids_upto ax' (n_markers cs + (n_markers [c] + n))"
    by blast
  have "n_markers cs + (n_markers [c] + n) = n_markers (c # cs) + n"
    by (simp add: n_markers_Cons [of c cs])
  with 1 3 4 show ?case by simp
qed

lemma scan_id_nonneg: "scan_id c = Some i \<Longrightarrow> 0 \<le> i"
proof -
  assume "scan_id c = Some i"
  then obtain t ds where "re_search t = Some ds" and i: "i = int_of_str ds"
    by (auto simp: scan_id_def split: option.splits)
  then have "\<forall>c \<in> set ds. is_digit c" by (auto dest: re_search_digits)
  then show ?thesis unfolding i by (rule int_of_str_nonneg)
qed

lemma ID_list_nonneg: "i \<in> set (ID_list ax) \<Longrightarrow> 0 \<le> i"
proof -
  assume "i \<in> set (ID_list ax)"
  then obtain h where "scan_id (cur ax h) = Some i"
    by (auto simp: ID_list_def map_filter_def)
  then show ?thesis by (rule scan_id_nonneg)
qed

subsection \<open>What loading a row does\<close>

lemma new_tag_group0: "\<exists>ds. new_tag ax = group0 ds \<and> ds \<noteq> [] \<and> (\<forall>c \<in> set ds. is_digit c)"
proof (cases "ID_list ax = []")
  case True
  then have "new_tag ax = group0 ''1''" by (simp add: new_tag_def group0_def)
  moreover have "\<forall>c \<in> set ''1''. is_digit c" by (simp add: is_digit_def)
  ultimately show ?thesis by blast
next
  case False
  then have "Max (set (ID_list ax)) \<in> set (ID_list ax)" by (intro Max_in) simp_all
  then have "0 \<le> Max (set (ID_list ax))" by (rule ID_list_nonneg)
  then have "str (Max (set (ID_list ax)) + 1) = str_nat (nat (Max (set (ID_list ax)) + 1))"
    by (simp add: str_def)
  with False have "new_tag ax = group0 (str_nat (nat (Max (set (ID_list ax)) + 1)))"
    by (simp add: new_tag_def group0_def)
  then show ?thesis using str_nat_nonempty str_nat_digits by blast
qed

definition tag_prefix :: "string option \<Rightarrow> string" where
  "tag_prefix t = (case t of None \<Rightarrow> [] | Some x \<Rightarrow> x)"

lemma set_tag_eq:
  assumes "tag (cur ax h) = Some (p @ group0 ds)" and "re_search p = None"
    and "ds \<noteq> []" and "\<forall>c \<in> set ds. is_digit c"
  shows "set_tag h t ax = Inr (upd_cur h (\<lambda>c. c\<lparr>tag := Some (tag_prefix t @ group0 ds)\<rparr>) ax)"
proof -
  have "re_search (p @ group0 ds @ []) = Some ds"
    using assms(2-4) by (rule re_search_append_token)
  with assms(1) show ?thesis
    by (cases t) (simp_all add: set_tag_def tag_prefix_def)
qed

text \<open>The cursor that a row makes of a new cursor with the id text \<open>idstr\<close>.\<close>

definition loaded_cursor :: "string \<Rightarrow> row \<Rightarrow> string \<Rightarrow> handle option \<Rightarrow> cursor" where
  "loaded_cursor idstr r ori so =
     \<lparr>press = None, mode = row_mode r, orient = ori, color = row_color r, xpos = row_xpos r,
      ls = (if row_mode r = ''fixed'' then ''-.'' else ''--''), kw_ls = ''--'',
      tag = Some (tag_prefix (row_tag r) @ idstr), spanobj = so, cids = True\<rparr>"

lemma initcur_eq:
  assumes "h < length (cursors ax)" and "tag (cur ax h) = Some (p @ group0 ds)"
    and "re_search p = None" and "ds \<noteq> []" and "\<forall>c \<in> set ds. is_digit c"
  shows "initcur h r ax =
     Inr (upd_cur h (\<lambda>c. c\<lparr>mode := row_mode r,
            ls := (if row_mode r = ''interact'' then kw_ls c
                   else if row_mode r = ''fixed'' then ''-.'' else ls c),
            color := row_color r,
            tag := Some (tag_prefix (row_tag r) @ group0 ds)\<rparr>) ax)"
proof -
  let ?ax2 = "set_color h (row_color r) (set_mode h (row_mode r) ax)"
  have "tag (cur ?ax2 h) = Some (p @ group0 ds)"
    using assms(1,2) by (simp add: set_color_def set_mode_def)
  then have "set_tag h (row_tag r) ?ax2 =
      Inr (upd_cur h (\<lambda>c. c\<lparr>tag := Some (tag_prefix (row_tag r) @ group0 ds)\<rparr>) ?ax2)"
    using assms(3-5) by (rule set_tag_eq)
  then show ?thesis
    using assms(1) by (simp add: initcur_def set_color_def set_mode_def upd_cur_def)
qed

lemma load_cursor_step:
  assumes "handles_ok ax"
  shows "(case placecursor ax (Some (row_xpos r)) of
            Inl e \<Rightarrow> Inl e
          | Inr (cur_obj, ax1) \<Rightarrow> initcur cur_obj r ax1) =
         Inr (grown ax (loaded_cursor (new_tag ax) r ''vertical'' None))"
proof -
  let ?c = "new_cursor ax (row_xpos r) ''vertical'' ''interact'' ''r'' ''--''"
  obtain ds where ds: "new_tag ax = group0 ds" "ds \<noteq> []" "\<forall>c \<in> set ds. is_digit c"
    using new_tag_group0 by blast
  have p: "placecursor ax (Some (row_xpos r)) = Inr (length (cursors ax), grown ax ?c)"
    using assms by (simp add: placecursor_def DragCursor_init_grown)
  have "initcur (length (cursors ax)) r (grown ax ?c) =
      Inr (upd_cur (length (cursors ax)) (\<lambda>c. c\<lparr>mode := row_mode r,
            ls := (if row_mode r = ''interact'' then kw_ls c
                   else if row_mode r = ''fixed'' then ''-.'' else ls c),
            color := row_color r,
            tag := Some (tag_prefix (row_tag r) @ group0 ds)\<rparr>) (grown ax ?c))"
    by (rule initcur_eq [where p = "[]"])
      (simp_all add: grown_def cur_def new_cursor_def ds)
  also have "\<dots> = Inr (grown ax (loaded_cursor (new_tag ax) r ''vertical'' None))"
    by (simp add: grown_def upd_cur_def new_cursor_def loaded_cursor_def ds)
  finally show ?thesis by (simp add: p)
qed


text \<open>The axes with two more cursors and one more span in lists and stores.\<close>

definition ext2 :: "axes \<Rightarrow> cursor \<Rightarrow> cursor \<Rightarrow> span \<Rightarrow> axes" where
  "ext2 ax a b sp =
     ax\<lparr>curlist := Some (curlist_of ax @ [length (cursors ax), Suc (length (cursors ax))]),
        spanlist := Some (spanlist_of ax @ [length (spans ax)]),
        cursors := cursors ax @ [a, b],
        spans := spans ax @ [sp]\<rparr>"

lemma ext2_upd:
  "upd_cur (length (cursors ax)) f (ext2 ax a b sp) = ext2 ax (f a) b sp"
  "upd_cur (Suc (length (cursors ax))) f (ext2 ax a b sp) = ext2 ax a (f b) sp"
  "upd_span (length (spans ax)) g (ext2 ax a b sp) = ext2 ax a b (g sp)"
  by (simp_all add: ext2_def upd_cur_def upd_span_def nth_append list_update_append)

lemma ext2_read:
  "cur (ext2 ax a b sp) (length (cursors ax)) = a"
  "cur (ext2 ax a b sp) (Suc (length (cursors ax))) = b"
  "spans (ext2 ax a b sp) ! length (spans ax) = sp"
  "length (cursors (ext2 ax a b sp)) = Suc (Suc (length (cursors ax)))"
  by (simp_all add: ext2_def cur_def nth_append)

lemma placespan_ext2:
  assumes "handles_ok ax"
  shows "placespan ax (Pair lo hi) =
     Inr (length (spans ax),
          ext2 ax
            ((new_cursor ax lo ''vertspan'' ''interact'' ''r'' ''--'')
               \<lparr>spanobj := Some (length (spans ax))\<rparr>)
            ((new_cursor (grown ax (new_cursor ax lo ''vertspan'' ''interact'' ''r'' ''--''))
                hi ''vertspan'' ''interact'' ''r'' ''--'')
               \<lparr>spanobj := Some (length (spans ax))\<rparr>)
            \<lparr>span_low = length (cursors ax), span_high = Suc (length (cursors ax)),
             span_color = ''r'', vspan = axvspan lo hi, vspan_on_axes = True,
             span_cid = True\<rparr>)"
  using DragSpan_init_eq [OF assms, of lo hi]
  by (simp add: placespan_def Let_def ext2_def)

lemma span_set_color_ext2:
  assumes "span_low sp = length (cursors ax)" and "span_high sp = Suc (length (cursors ax))"
  shows "span_set_color (length (spans ax)) col (ext2 ax a b sp) =
           ext2 ax (a\<lparr>color := col\<rparr>) (b\<lparr>color := col\<rparr>) (sp\<lparr>span_color := col\<rparr>)"
  using assms by (simp add: span_set_color_def set_color_def ext2_upd ext2_read)

lemma initcur_ext2_lo:
  assumes "tag a = Some (group0 ds)" and "ds \<noteq> []" and "\<forall>c \<in> set ds. is_digit c"
  shows "initcur (length (cursors ax)) r (ext2 ax a b sp) =
     Inr (ext2 ax (a\<lparr>mode := row_mode r,
            ls := (if row_mode r = ''interact'' then kw_ls a
                   else if row_mode r = ''fixed'' then ''-.'' else ls a),
            color := row_color r,
            tag := Some (tag_prefix (row_tag r) @ group0 ds)\<rparr>) b sp)"
proof -
  have "initcur (length (cursors ax)) r (ext2 ax a b sp) =
     Inr (upd_cur (length (cursors ax)) (\<lambda>c. c\<lparr>mode := row_mode r,
            ls := (if row_mode r = ''interact'' then kw_ls c
                   else if row_mode r = ''fixed'' then ''-.'' else ls c),
            color := row_color r,
            tag := Some (tag_prefix (row_tag r) @ group0 ds)\<rparr>) (ext2 ax a b sp))"
    by (rule initcur_eq [where p = "[]"]) (simp_all add: ext2_read assms)
  then show ?thesis by (simp add: ext2_upd)
qed

lemma initcur_ext2_hi:
  assumes "tag b = Some (group0 ds)" and "ds \<noteq> []" and "\<forall>c \<in> set ds. is_digit c"
  shows "initcur (Suc (length (cursors ax))) r (ext2 ax a b sp) =
     Inr (ext2 ax a (b\<lparr>mode := row_mode r,
            ls := (if row_mode r = ''interact'' then kw_ls b
                   else if row_mode r = ''fixed'' then ''-.'' else ls b),
            color := row_color r,
            tag := Some (tag_prefix (row_tag r) @ group0 ds)\<rparr>) sp)"
proof -
  have "initcur (Suc (length (cursors ax))) r (ext2 ax a b sp) =
     Inr (upd_cur (Suc (length (cursors ax))) (\<lambda>c. c\<lparr>mode := row_mode r,
            ls := (if row_mode r = ''interact'' then kw_ls c
                   else if row_mode r = ''fixed'' then ''-.'' else ls c),
            color := row_color r,
            tag := Some (tag_prefix (row_tag r) @ group0 ds)\<rparr>) (ext2 ax a b sp))"
    by (rule initcur_eq [where p = "[]"]) (simp_all add: ext2_read assms)
  then show ?thesis by (simp add: ext2_upd)
qed

text \<open>The axes after the two rows of a span were loaded into it.\<close>

definition span_loaded :: "axes \<Rightarrow> row \<Rightarrow> row \<Rightarrow> axes" where
  "span_loaded ax lr r =
     ext2 ax
       (loaded_cursor (new_tag ax) lr ''vertspan'' (Some (length (spans ax))))
       (loaded_cursor
          (new_tag (grown ax (new_cursor ax (row_xpos lr) ''vertspan'' ''interact'' ''r'' ''--'')))
          r ''vertspan'' (Some (length (spans ax))))
       \<lparr>span_low = length (cursors ax), span_high = Suc (length (cursors ax)),
        span_color = row_color r, vspan = axvspan (row_xpos lr) (row_xpos r),
        vspan_on_axes = True, span_cid = True\<rparr>"

lemma load_span_step:
  assumes "handles_ok ax"
  shows "(case placespan ax (Pair (row_xpos lr) (row_xpos r)) of
            Inl e \<Rightarrow> Inl e
          | Inr (span_obj, ax1) \<Rightarrow>
              let ax2 = span_set_color span_obj (row_color r) ax1
              in (case initcur (span_low (spans ax2 ! span_obj)) lr ax2 of
                    Inl e \<Rightarrow> Inl e
                  | Inr ax3 \<Rightarrow>
                      (case initcur (span_high (spans ax3 ! span_obj)) r ax3 of
                         Inl e \<Rightarrow> Inl e
                       | Inr ax4 \<Rightarrow> k ax4))) =
         k (span_loaded ax lr r)"
proof -
  let ?c1 = "new_cursor ax (row_xpos lr) ''vertspan'' ''interact'' ''r'' ''--''"
  obtain d1 where d1: "new_tag ax = group0 d1" "d1 \<noteq> []" "\<forall>c \<in> set d1. is_digit c"
    using new_tag_group0 by blast
  obtain d2 where d2: "new_tag (grown ax ?c1) = group0 d2" "d2 \<noteq> []" "\<forall>c \<in> set d2. is_digit c"
    using new_tag_group0 by blast
  define A where "A = ?c1\<lparr>spanobj := Some (length (spans ax))\<rparr>"
  define B where "B = (new_cursor (grown ax ?c1) (row_xpos r) ''vertspan'' ''interact'' ''r'' ''--'')
               \<lparr>spanobj := Some (length (spans ax))\<rparr>"
  define SP where "SP = \<lparr>span_low = length (cursors ax), span_high = Suc (length (cursors ax)),
             span_color = ''r'', vspan = axvspan (row_xpos lr) (row_xpos r),
             vspan_on_axes = True, span_cid = True\<rparr>"
  define A1 where "A1 = A\<lparr>color := row_color r\<rparr>"
  define B1 where "B1 = B\<lparr>color := row_color r\<rparr>"
  define SP1 where "SP1 = SP\<lparr>span_color := row_color r\<rparr>"
  define A2 where "A2 = A1\<lparr>mode := row_mode lr,
            ls := (if row_mode lr = ''interact'' then kw_ls A1
                   else if row_mode lr = ''fixed'' then ''-.'' else ls A1),
            color := row_color lr,
            tag := Some (tag_prefix (row_tag lr) @ group0 d1)\<rparr>"
  define B2 where "B2 = B1\<lparr>mode := row_mode r,
            ls := (if row_mode r = ''interact'' then kw_ls B1
                   else if row_mode r = ''fixed'' then ''-.'' else ls B1),
            color := row_color r,
            tag := Some (tag_prefix (row_tag r) @ group0 d2)\<rparr>"
  have 1: "placespan ax (Pair (row_xpos lr) (row_xpos r)) =
      Inr (length (spans ax), ext2 ax A B SP)"
    unfolding A_def B_def SP_def by (rule placespan_ext2 [OF assms])
  have 2: "span_set_color (length (spans ax)) (row_color r) (ext2 ax A B SP) = ext2 ax A1 B1 SP1"
    unfolding A1_def B1_def SP1_def by (rule span_set_color_ext2) (simp_all add: SP_def)
  have lo: "span_low SP1 = length (cursors ax)" and hi: "span_high SP1 = Suc (length (cursors ax))"
    by (simp_all add: SP1_def SP_def)
  have 3: "initcur (length (cursors ax)) lr (ext2 ax A1 B1 SP1) = Inr (ext2 ax A2 B1 SP1)"
    unfolding A2_def
    by (rule initcur_ext2_lo [OF _ d1(2,3)]) (simp add: A1_def A_def new_cursor_def d1(1))
  have 4: "initcur (Suc (length (cursors ax))) r (ext2 ax A2 B1 SP1) = Inr (ext2 ax A2 B2 SP1)"
    unfolding B2_def
    by (rule initcur_ext2_hi [OF _ d2(2,3)]) (simp add: B1_def B_def new_cursor_def d2(1) [symmetric])
  have 5: "ext2 ax A2 B2 SP1 = span_loaded ax lr r"
    unfolding A2_def A1_def A_def B2_def B1_def B_def SP1_def SP_def span_loaded_def
      loaded_cursor_def d1(1) [symmetric] d2(1) [symmetric]
    by (simp add: new_cursor_def)
  show ?thesis
    by (simp add: 1 2 3 4 5 ext2_read lo hi)
qed


lemma load_cursor_step_k:
  assumes "handles_ok ax"
  shows "(case placecursor ax (Some (row_xpos r)) of
            Inl e \<Rightarrow> Inl e
          | Inr (cur_obj, ax1) \<Rightarrow>
              (case initcur cur_obj r ax1 of Inl e \<Rightarrow> Inl e | Inr ax2 \<Rightarrow> k ax2)) =
         k (grown ax (loaded_cursor (new_tag ax) r ''vertical'' None))"
  using load_cursor_step [OF assms, of r]
  by (auto split: sum.splits prod.splits)

lemma handles_ok_ext2: "handles_ok ax \<Longrightarrow> handles_ok (ext2 ax a b sp)"
  by (auto simp: handles_ok_def ext2_def curlist_of_def)

lemma handles_ok_span_loaded: "handles_ok ax \<Longrightarrow> handles_ok (span_loaded ax lr r)"
  unfolding span_loaded_def by (rule handles_ok_ext2)

text \<open>
  The state the loop of \<open>loadcurinfo\<close> arrives at, and the buffered row it ends
  with.
\<close>

fun load_state :: "row option \<Rightarrow> row list \<Rightarrow> axes \<Rightarrow> axes" where
  "load_state b [] ax = ax"
| "load_state b (r # rows) ax =
     (if row_type r = ''vertical''
      then load_state b rows (grown ax (loaded_cursor (new_tag ax) r ''vertical'' None))
      else if row_type r = ''vertspan''
      then (case b of
              None \<Rightarrow> load_state (Some r) rows ax
            | Some lr \<Rightarrow> load_state None rows (span_loaded ax lr r))
      else load_state b rows ax)"

fun buffer_after :: "row option \<Rightarrow> row list \<Rightarrow> row option" where
  "buffer_after b [] = b"
| "buffer_after b (r # rows) =
     (if row_type r = ''vertspan''
      then (case b of None \<Rightarrow> buffer_after (Some r) rows | Some lr \<Rightarrow> buffer_after None rows)
      else buffer_after b rows)"

lemma load_rows_eq: "handles_ok ax \<Longrightarrow> load_rows b rows ax = Inr (load_state b rows ax)"
proof (induction rows arbitrary: b ax)
  case Nil
  show ?case by simp
next
  case (Cons r rows)
  note ok = Cons.prems
  show ?case
  proof (cases "row_type r = ''vertical''")
    case True
    have "handles_ok (grown ax (loaded_cursor (new_tag ax) r ''vertical'' None))"
      using ok by (rule handles_ok_grown)
    then show ?thesis
      using True by (simp add: load_cursor_step_k [OF ok] Cons.IH)
  next
    case nv: False
    show ?thesis
    proof (cases "row_type r = ''vertspan''")
      case False
      with nv show ?thesis by (simp add: Cons.IH [OF ok])
    next
      case True
      show ?thesis
      proof (cases b)
        case None
        with True show ?thesis by (simp add: Cons.IH [OF ok])
      next
        case (Some lr)
        have "handles_ok (span_loaded ax lr r)"
          using ok by (rule handles_ok_span_loaded)
        then show ?thesis
          using True Some by (simp add: load_span_step [OF ok] Cons.IH)
      qed
    qed
  qed
qed

lemma load_state_append:
  "load_state b (xs @ ys) ax = load_state (buffer_after b xs) ys (load_state b xs ax)"
  by (induction xs arbitrary: b ax) (simp_all split: option.split)

lemma load_state_no_span:
  "\<forall>x \<in> set rows. row_type x \<noteq> ''vertspan'' \<Longrightarrow> load_state b rows ax = load_state b' rows ax"
  by (induction rows arbitrary: ax) simp_all

lemma buffer_after_parity:
  "(buffer_after b xs = None) =
     (even (length (filter (\<lambda>x. row_type x = ''vertspan'') xs)) = (b = None))"
  by (induction xs arbitrary: b) (auto split: option.split)

subsection \<open>Example states\<close>

text \<open>An axes that nothing was attached to yet, and a pointer event at a position.\<close>

definition new_axes :: axes where
  "new_axes = \<lparr>curlist = None, spanlist = None, cursors = [], spans = [],
               navigate_mode = None, xlim = (0, 1), fig_cidpress = None\<rparr>"

definition pointer_at :: "bool \<Rightarrow> int \<Rightarrow> real \<Rightarrow> event" where
  "pointer_at inside b x =
     \<lparr>inaxes = inside, button = b, xdata = x, ydata = 0,
      hits_line = (\<lambda>p. \<bar>p - x\<bar> \<le> 1),
      hits_patch = (\<lambda>poly. list_ex (\<lambda>q. fst q \<le> x) poly \<and> list_ex (\<lambda>q. x \<le> fst q) poly)\<rparr>"

text \<open>The axes after \<open>placecursor(ax, pos=x)\<close> on \<open>new_axes\<close>.\<close>

definition one_cursor :: "real \<Rightarrow> axes" where
  "one_cursor x =
     new_axes\<lparr>curlist := Some [0],
       cursors := [\<lparr>press = None, mode = ''interact'', orient = ''vertical'',
                    color = ''r'', xpos = x, ls = ''--'', kw_ls = ''--'',
                    tag = Some ''(1)'', spanobj = None, cids = True\<rparr>]\<rparr>"

lemma placecursor_new_axes: "placecursor new_axes (Some x) = Inr (0, one_cursor x)"
  by (simp add: placecursor_def DragCursor_init_def new_axes_def one_cursor_def initag_def
      Let_def curlist_of_def ID_list_def List.map_filter_simps scan_id_def upd_cur_def cur_def)

text \<open>The axes after \<open>placespan(ax, pos=(lo, hi))\<close> on \<open>new_axes\<close>.\<close>

definition one_span :: "real \<Rightarrow> real \<Rightarrow> axes" where
  "one_span lo hi =
     new_axes\<lparr>curlist := Some [0, 1], spanlist := Some [0],
       cursors := [\<lparr>press = None, mode = ''interact'', orient = ''vertspan'',
                    color = ''r'', xpos = lo, ls = ''--'', kw_ls = ''--'',
                    tag = Some ''(1)'', spanobj = Some 0, cids = True\<rparr>,
                   \<lparr>press = None, mode = ''interact'', orient = ''vertspan'',
                    color = ''r'', xpos = hi, ls = ''--'', kw_ls = ''--'',
                    tag = Some ''(2)'', spanobj = Some 0, cids = True\<rparr>],
       spans := [\<lparr>span_low = 0, span_high = 1, span_color = ''r'',
                  vspan = axvspan lo hi, vspan_on_axes = True, span_cid = True\<rparr>]\<rparr>"

lemma str_small: "str 1 = ''1''" "str 2 = ''2''" "str 3 = ''3''" "str 4 = ''4''"
  by (simp_all add: str_def str_nat.simps digit_char_def)

lemma placespan_new_axes: "placespan new_axes (Pair lo hi) = Inr (0, one_span lo hi)"
proof -
  have ok: "handles_ok new_axes"
    by (simp add: handles_ok_def new_axes_def curlist_of_def)
  have 1: "ID_list new_axes = []"
    by (simp add: ID_list_def new_axes_def curlist_of_def List.map_filter_simps)
  have 2: "ID_list (grown new_axes c) = [1]" if "tag c = Some ''(1)''" for c
    using that
    by (simp add: ID_list_def grown_def new_axes_def curlist_of_def cur_def
        List.map_filter_simps scan_id_def match_at_def is_digit_def int_of_str_def digit_val_def)
  have "placespan new_axes (Pair lo hi) =
      Inr (0, new_axes\<lparr>curlist := Some (curlist_of new_axes @ [0, 1]),
                spanlist := Some (spanlist_of new_axes @ [0]),
                cursors := cursors (one_span lo hi), spans := spans (one_span lo hi)\<rparr>)"
    by (simp add: placespan_def DragSpan_init_eq [OF ok] Let_def new_cursor_def new_tag_def
        1 2 str_small)
      (simp add: one_span_def new_axes_def)
  then show ?thesis
    by (simp add: one_span_def new_axes_def curlist_of_def spanlist_of_def)
qed

lemma cur_one_cursor:
  "cur (one_cursor x) 0 =
     \<lparr>press = None, mode = ''interact'', orient = ''vertical'', color = ''r'', xpos = x,
      ls = ''--'', kw_ls = ''--'', tag = Some ''(1)'', spanobj = None, cids = True\<rparr>"
  "length (cursors (one_cursor x)) = 1"
  "curlist (one_cursor x) = Some [0]"
  by (simp_all add: cur_def one_cursor_def new_axes_def)

lemma cur_one_span:
  "cur (one_span lo hi) 0 =
     \<lparr>press = None, mode = ''interact'', orient = ''vertspan'', color = ''r'', xpos = lo,
      ls = ''--'', kw_ls = ''--'', tag = Some ''(1)'', spanobj = Some 0, cids = True\<rparr>"
  "cur (one_span lo hi) (Suc 0) =
     \<lparr>press = None, mode = ''interact'', orient = ''vertspan'', color = ''r'', xpos = hi,
      ls = ''--'', kw_ls = ''--'', tag = Some ''(2)'', spanobj = Some 0, cids = True\<rparr>"
  "length (cursors (one_span lo hi)) = 2"
  "curlist (one_span lo hi) = Some [0, 1]"
  "spanlist (one_span lo hi) = Some [0]"
  "spans (one_span lo hi) =
     [\<lparr>span_low = 0, span_high = 1, span_color = ''r'', vspan = axvspan lo hi,
       vspan_on_axes = True, span_cid = True\<rparr>]"
  by (simp_all add: cur_def one_span_def new_axes_def)

text \<open>A row of a table, of a type and at a position.\<close>

definition a_row :: "string \<Rightarrow> real \<Rightarrow> row" where
  "a_row ty x = \<lparr>row_id = 1, row_tag = Some [], row_xpos = x, row_type = ty,
                 row_mode = ''interact'', row_color = ''r''\<rparr>"

section \<open>The claims\<close>

subsection \<open>C3: reading the display id out of a label\<close>

text \<open>
  C3 says that extracting the display id of a label gives the integer when the label
  has a parenthesised integer and a not-found value otherwise, without raising, both in
  \<open>DragCursor.get_id\<close> and in the scan of \<open>initag\<close>. The scan does so: its
  \<open>except\<close> clauses pass over a label without an id. \<open>get_id\<close> does not:
  \<open>setcurtag\<close> with \<open>keep_id=False\<close> gives a cursor the label \<open>foo\<close>, the scan
  finds no id in it, and \<open>get_id\<close> raises \<open>AttributeError\<close>, and with it
  \<open>getcur\<close> for any id.
\<close>

theorem get_id_raises_without_token:
  "\<exists>ax1 ax2. placecursor new_axes (Some 0) = Inr (0, ax1) \<and>
     setcurtag (CurObj 0) ''foo'' False ax1 = Inr ax2 \<and>
     tag (cur ax2 0) = Some ''foo'' \<and>
     scan_id (cur ax2 0) = None \<and>
     get_id (cur ax2 0) = Inl AttributeError \<and>
     getcur 1 ax2 = Inl AttributeError"
proof -
  let ?ax2 = "upd_cur 0 (\<lambda>c. c\<lparr>tag := Some ''foo''\<rparr>) (one_cursor 0)"
  have 1: "placecursor new_axes (Some 0) = Inr (0, one_cursor 0)"
    by (rule placecursor_new_axes)
  have 2: "setcurtag (CurObj 0) ''foo'' False (one_cursor 0) = Inr ?ax2"
    by (simp add: setcurtag_def setnewname_def cur_def one_cursor_def)
  have 3: "tag (cur ?ax2 0) = Some ''foo''"
    by (simp add: one_cursor_def)
  have 4: "re_search ''foo'' = None"
    by (simp add: match_at_def)
  from 3 4 have 5: "scan_id (cur ?ax2 0) = None" "get_id (cur ?ax2 0) = Inl AttributeError"
    by (simp_all add: scan_id_def get_id_def)
  from 5 have 6: "getcur 1 ?ax2 = Inl AttributeError"
    by (simp add: getcur_def one_cursor_def)
  from 1 2 3 5 6 show ?thesis by blast
qed

subsection \<open>C9: release\<close>

text \<open>
  C9: for every cursor and every release event, also one with the pointer outside the
  axes, \<open>_on_release\<close> clears the press state, so the cursor is idle afterwards; a
  second release changes nothing, and a release on an idle cursor leaves the whole
  state as it was.
\<close>

theorem release_clears_press:
  "h < length (cursors ax) \<Longrightarrow>
     press (cur (on_release h ev ax) h) = None \<and>
     on_release h ev' (on_release h ev ax) = on_release h ev ax \<and>
     (press (cur ax h) = None \<longrightarrow> on_release h ev ax = ax)"
proof -
  assume h: "h < length (cursors ax)"
  have idle: "on_release h ev ax = ax" if "press (cur ax h) = None"
  proof -
    from that have "(cursors ax ! h)\<lparr>press := None\<rparr> = cursors ax ! h"
      by (cases "cursors ax ! h") (simp add: cur_def)
    then show ?thesis by (simp add: on_release_def upd_cur_def)
  qed
  from h show ?thesis
    using idle by (simp add: on_release_def upd_cur_def cur_def)
qed

theorem release_clears_press_witness:
  "press (cur (upd_cur 0 (\<lambda>c. c\<lparr>press := Some (2, 0, 2, 0)\<rparr>) (one_cursor 2)) 0) \<noteq> None \<and>
   press (cur (on_release 0 (pointer_at False 1 9)
                (upd_cur 0 (\<lambda>c. c\<lparr>press := Some (2, 0, 2, 0)\<rparr>) (one_cursor 2))) 0) = None \<and>
   on_release 0 (pointer_at False 1 9) (one_cursor 2) = one_cursor 2"
  using release_clears_press [of 0 "upd_cur 0 (\<lambda>c. c\<lparr>press := Some (2, 0, 2, 0)\<rparr>) (one_cursor 2)"
      "pointer_at False 1 9" "pointer_at False 1 9"]
    release_clears_press [of 0 "one_cursor 2" "pointer_at False 1 9" "pointer_at False 1 9"]
  by (simp add: one_cursor_def cur_def)

subsection \<open>C10: arming the placement handlers\<close>

text \<open>
  C10: \<open>curonclick\<close> and \<open>spanonclick\<close> called with an axes object raise an error
  (the local \<open>fig\<close> is unbound) before any callback is connected; called with the
  default argument they connect the placement callback on the current axes' figure.
\<close>

theorem onclick_explicit_axes_unbound:
  "curonclick (Some a) gca = Inl UnboundLocalError \<and>
   spanonclick (Some a) gca = Inl UnboundLocalError \<and>
   curonclick None gca = Inr (gca\<lparr>fig_cidpress := Some PlaceCursor\<rparr>) \<and>
   spanonclick None gca = Inr (gca\<lparr>fig_cidpress := Some PlaceSpan\<rparr>)"
  by (simp add: curonclick_def spanonclick_def)

subsection \<open>C6: the id of a new cursor\<close>

text \<open>
  C6: a new cursor gets the display id \<open>max + 1\<close> of the ids found in the labels of
  the cursors of the list, or \<open>1\<close> when there is none (so also when the list is
  empty). The constructor succeeds for a \<open>vertical\<close> cursor, and for a \<open>vertspan\<close>
  cursor on an axes that has a span list, as it has when the constructor of a span
  makes the cursor; a \<open>vertspan\<close> cursor on an axes without span list raises
  \<open>AttributeError\<close> instead. After any sequence of creations of cursors and spans on
  an axes without cursors, the ids of the cursors, in list order, are \<open>1, \<dots>, N\<close>
  for the \<open>N\<close> cursors made, hence pairwise different.
\<close>

theorem initag_assigns_next_id:
  "(handles_ok ax \<and> (ori = ''vertical'' \<or> ori = ''vertspan'' \<and> spanlist ax \<noteq> None) \<longrightarrow>
      (\<exists>ax'. DragCursor_init ax pos ori md col l = Inr (length (cursors ax), ax') \<and>
         curlist_of ax' = curlist_of ax @ [length (cursors ax)] \<and>
         get_id (cur ax' (length (cursors ax))) =
           Inr (if ID_list ax = [] then 1 else Max (set (ID_list ax)) + 1))) \<and>
   (spanlist ax1 = None \<longrightarrow>
      DragCursor_init ax1 pos ''vertspan'' md col l = Inl AttributeError) \<and>
   (curlist_of ax0 = [] \<longrightarrow>
      (\<exists>ax'. create_all cs ax0 = Inr ax' \<and>
         map (\<lambda>h. get_id (cur ax' h)) (curlist_of ax') =
           map (\<lambda>i. Inr (int i)) [1..<Suc (n_markers cs)]))"
proof (intro conjI impI)
  assume a: "handles_ok ax \<and> (ori = ''vertical'' \<or> ori = ''vertspan'' \<and> spanlist ax \<noteq> None)"
  let ?k = "if ID_list ax = [] then 1 else Max (set (ID_list ax)) + 1"
  let ?c = "new_cursor ax pos ori md col l"
  have k: "0 \<le> ?k"
  proof (cases "ID_list ax = []")
    case True
    then show ?thesis by simp
  next
    case False
    then have "Max (set (ID_list ax)) \<in> set (ID_list ax)" by (intro Max_in) simp_all
    then have "0 \<le> Max (set (ID_list ax))" by (rule ID_list_nonneg)
    with False show ?thesis by simp
  qed
  have "str 1 = ''1''" by (simp add: str_def str_nat.simps digit_char_def)
  then have t: "tag ?c = Some ([] @ group0 (str ?k))"
    by (simp add: new_cursor_def new_tag_def group0_def)
  have gid: "get_id ?c = Inr ?k"
    by (rule get_id_label(1) [OF _ k t]) simp
  from a have ok: "handles_ok ax"
    and o: "ori = ''vertical'' \<or> ori = ''vertspan'' \<and> spanlist ax \<noteq> None"
    by simp_all
  have eq: "DragCursor_init ax pos ori md col l = Inr (length (cursors ax), grown ax ?c)"
    by (rule DragCursor_init_grown [OF ok o])
  have cl: "curlist_of (grown ax ?c) = curlist_of ax @ [length (cursors ax)]"
    by (simp add: grown_def curlist_of_def)
  have "cur (grown ax ?c) (length (cursors ax)) = ?c"
    by (simp add: grown_def cur_def)
  with gid have "get_id (cur (grown ax ?c) (length (cursors ax))) = Inr ?k"
    by (simp only:)
  with eq cl
  show "\<exists>ax'. DragCursor_init ax pos ori md col l = Inr (length (cursors ax), ax') \<and>
         curlist_of ax' = curlist_of ax @ [length (cursors ax)] \<and>
         get_id (cur ax' (length (cursors ax))) = Inr ?k"
    by blast
next
  assume "spanlist ax1 = None"
  then show "DragCursor_init ax1 pos ''vertspan'' md col l = Inl AttributeError"
    by (simp add: DragCursor_init_def Let_def initag_def cur_def)
next
  assume e: "curlist_of ax0 = []"
  then have "ids_upto ax0 0" by (simp add: ids_upto_def handles_ok_def)
  from ids_upto_create_all [OF this, of cs]
  obtain ax' where 1: "create_all cs ax0 = Inr ax'" and 2: "ids_upto ax' (n_markers cs)"
    by auto
  from 2 have "map (\<lambda>h. get_id (cur ax' h)) (curlist_of ax') =
      map (\<lambda>x. case x of None \<Rightarrow> Inl AttributeError | Some i \<Rightarrow> Inr i)
        (map (\<lambda>i. Some (int i)) [1..<Suc (n_markers cs)])"
  proof -
    from 2 have "map (\<lambda>h. scan_id (cur ax' h)) (curlist_of ax') =
        map (\<lambda>i. Some (int i)) [1..<Suc (n_markers cs)]"
      by (simp add: ids_upto_def)
    then have "map (\<lambda>x. case x of None \<Rightarrow> Inl AttributeError | Some i \<Rightarrow> Inr i)
          (map (\<lambda>h. scan_id (cur ax' h)) (curlist_of ax')) =
        map (\<lambda>x. case x of None \<Rightarrow> Inl AttributeError | Some i \<Rightarrow> Inr i)
          (map (\<lambda>i. Some (int i)) [1..<Suc (n_markers cs)])"
      by (rule arg_cong)
    then show ?thesis by (simp add: get_id_scan_id comp_def)
  qed
  then have "map (\<lambda>h. get_id (cur ax' h)) (curlist_of ax') =
      map (\<lambda>i. Inr (int i)) [1..<Suc (n_markers cs)]"
    by (simp add: comp_def)
  with 1 show "\<exists>ax'. create_all cs ax0 = Inr ax' \<and>
         map (\<lambda>h. get_id (cur ax' h)) (curlist_of ax') =
           map (\<lambda>i. Inr (int i)) [1..<Suc (n_markers cs)]"
    by blast
qed

theorem initag_assigns_next_id_witness:
  "(\<exists>ax'. DragCursor_init (one_cursor 0) 5 ''vertical'' ''interact'' ''r'' ''--'' = Inr (1, ax') \<and>
      curlist_of ax' = [0, 1] \<and> get_id (cur ax' 1) = Inr 2) \<and>
   DragCursor_init (one_cursor 0) 5 ''vertspan'' ''interact'' ''r'' ''--'' = Inl AttributeError \<and>
   (\<exists>ax'. create_all [Cursor (Some 0), Span (Pair (- 3) 3)] new_axes = Inr ax' \<and>
      map (\<lambda>h. get_id (cur ax' h)) (curlist_of ax') = [Inr 1, Inr 2, Inr 3])"
proof -
  have ok: "handles_ok (one_cursor 0)"
    by (simp add: handles_ok_def one_cursor_def new_axes_def curlist_of_def)
  have ids: "ID_list (one_cursor 0) = [1]"
    by (simp add: ID_list_def one_cursor_def new_axes_def curlist_of_def cur_def
        List.map_filter_simps scan_id_def match_at_def is_digit_def int_of_str_def digit_val_def)
  have cl: "curlist_of (one_cursor 0) = [0]" "length (cursors (one_cursor 0)) = 1"
    "curlist_of new_axes = []" "spanlist (one_cursor 0) = None"
    by (simp_all add: one_cursor_def new_axes_def curlist_of_def)
  have upt: "[1..<Suc 3] = [1, 2, 3]"
    by (simp add: upt_rec)
  show ?thesis
    using initag_assigns_next_id [of "one_cursor 0" "''vertical''" 5 "''interact''" "''r''" "''--''"
        "one_cursor 0" new_axes "[Cursor (Some 0), Span (Pair (- 3) 3)]"]
    by (simp add: ok ids cl upt)
qed

subsection \<open>C5: the fill follows a dragged endpoint\<close>

text \<open>The extent of a polygon along the x axis.\<close>

definition x_extent :: "(real \<times> real) list \<Rightarrow> real \<times> real" where
  "x_extent poly = (Min (fst ` set poly), Max (fst ` set poly))"

text \<open>
  C5: a motion event that \<open>_on_motion\<close> of a pressed span cursor handles (the pointer
  is inside the axes) moves that cursor to the pointer, leaves every other cursor
  where it was, and recomputes the polygon of the fill in the same call: its extent
  along x is from the smaller to the larger of the two cursors' positions, whichever
  of the two is the low one. (A motion event outside the axes is ignored by the
  handler: neither the position nor the polygon changes.)
\<close>

theorem motion_updates_fill:
  assumes "h < length (cursors ax)" and "press (cur ax h) \<noteq> None" and "inaxes ev"
    and "orient (cur ax h) = ''vertspan''" and "spanobj (cur ax h) = Some s"
    and "s < length (spans ax)"
  shows "\<exists>ax'. on_motion h ev ax = Inr ax' \<and>
           xpos (cur ax' h) = xdata ev \<and>
           (\<forall>h'. h' \<noteq> h \<longrightarrow> xpos (cur ax' h') = xpos (cur ax h')) \<and>
           span_low (spans ax' ! s) = span_low (spans ax ! s) \<and>
           span_high (spans ax' ! s) = span_high (spans ax ! s) \<and>
           x_extent (vspan (spans ax' ! s)) =
             (min (xpos (cur ax' (span_low (spans ax' ! s))))
                  (xpos (cur ax' (span_high (spans ax' ! s)))),
              max (xpos (cur ax' (span_low (spans ax' ! s))))
                  (xpos (cur ax' (span_high (spans ax' ! s)))))"
proof -
  let ?ax1 = "upd_cur h (\<lambda>c. c\<lparr>xpos := xdata ev\<rparr>) ax"
  let ?ax' = "updatespan s ?ax1"
  have m: "on_motion h ev ax = Inr ?ax'"
    using assms by (simp add: on_motion_def Let_def del: not_None_eq)
  have c: "cur ?ax' h' = cur ?ax1 h'" for h'
    by (simp add: updatespan_def Let_def)
  have x: "xpos (cur ?ax' h) = xdata ev"
    using assms(1) by (simp add: c)
  have o: "xpos (cur ?ax' h') = xpos (cur ax h')" if "h' \<noteq> h" for h'
    using that by (simp add: c)
  have sl: "span_low (spans ?ax' ! s) = span_low (spans ax ! s)"
    and sh: "span_high (spans ?ax' ! s) = span_high (spans ax ! s)"
    using assms(6) by (simp_all add: updatespan_def Let_def)
  have v: "vspan (spans ?ax' ! s) =
      (let lo = xpos (cur ?ax1 (span_low (spans ax ! s)));
           hi = xpos (cur ?ax1 (span_high (spans ax ! s)))
       in [(lo, 0), (lo, 1), (hi, 1), (hi, 0), (lo, 0)])"
    using assms(6) by (simp add: updatespan_def Let_def)
  have e: "x_extent [(lo, 0), (lo, 1), (hi, 1), (hi, 0), (lo, 0)] = (min lo hi, max lo hi)"
    for lo hi :: real
    by (simp add: x_extent_def min_def max_def insert_commute)
  have "x_extent (vspan (spans ?ax' ! s)) =
             (min (xpos (cur ?ax' (span_low (spans ?ax' ! s))))
                  (xpos (cur ?ax' (span_high (spans ?ax' ! s)))),
              max (xpos (cur ?ax' (span_low (spans ?ax' ! s))))
                  (xpos (cur ?ax' (span_high (spans ?ax' ! s)))))"
    unfolding sl sh v Let_def e c ..
  with m x o sl sh show ?thesis by blast
qed


theorem motion_updates_fill_witness:
  "\<exists>ax'. on_motion 0 (pointer_at True 1 5)
            (upd_cur 0 (\<lambda>c. c\<lparr>press := Some (- 3, 0, - 3, 0)\<rparr>) (one_span (- 3) 3)) = Inr ax' \<and>
         xpos (cur ax' 0) = 5 \<and> xpos (cur ax' 1) = 3 \<and>
         x_extent (vspan (spans ax' ! 0)) = (3, 5)"
  using motion_updates_fill [of 0 "upd_cur 0 (\<lambda>c. c\<lparr>press := Some (- 3, 0, - 3, 0)\<rparr>) (one_span (- 3) 3)"
      "pointer_at True 1 5" 0]
  by (auto simp: one_span_def new_axes_def pointer_at_def cur_def)

subsection \<open>C8: a press with the right button\<close>

text \<open>
  C8 says that a right-button press that hits a cursor deletes a standalone cursor
  without capturing drag state, and does nothing at all on a cursor of a span. The
  handler stores the press state before it looks at the button. So on a cursor of a
  span the press is not a no-op: the cursor is pressed, and a motion event after it
  moves the cursor, as after a press with the left button.
\<close>

theorem secondary_press_on_endpoint_captures:
  "press (cur (one_span (- 3) 3) 0) = None \<and>
   map_sum id (\<lambda>ax'. press (cur ax' 0))
     (on_press 0 (pointer_at True 3 (- 3)) (one_span (- 3) 3)) = Inr (Some (- 3, 0, - 3, 0)) \<and>
   map_sum id (\<lambda>ax'. xpos (cur ax' 0))
     (run [(0, Press (pointer_at True 3 (- 3))), (0, Motion (pointer_at True 3 1))]
        (one_span (- 3) 3)) = Inr 1"
  by (simp add: one_span_def new_axes_def pointer_at_def cur_def on_press_def on_motion_def
      deliver_def updatespan_def upd_cur_def upd_span_def Let_def)

text \<open>
  C8 as the code has it: a right-button press that passes the handler's guards (inside
  the axes, mode not \<open>fixed\<close>, no navigation tool, the line is hit) stores the press
  state. On a cursor of a span nothing else changes: the cursor, its span and both
  lists stay. A cursor of any other orientation that is in the list is then removed
  from the list and its callbacks are disconnected; the other cursors and the spans
  stay as they were.
\<close>

theorem secondary_press:
  assumes "h < length (cursors ax)" and "inaxes ev" and "mode (cur ax h) \<noteq> ''fixed''"
    and "navigate_mode ax = None" and "hits_line ev (xpos (cur ax h))" and "button ev = 3"
  shows "(orient (cur ax h) = ''vertspan'' \<longrightarrow>
            on_press h ev ax =
              Inr (upd_cur h (\<lambda>c. c\<lparr>press := Some (xpos c, 0, xdata ev, ydata ev)\<rparr>) ax)) \<and>
         (orient (cur ax h) \<noteq> ''vertspan'' \<and> h \<in> set (curlist_of ax) \<longrightarrow>
            (\<exists>ax'. on_press h ev ax = Inr ax' \<and>
               curlist ax' = Some (remove1 h (curlist_of ax)) \<and>
               \<not> cids (cur ax' h) \<and>
               press (cur ax' h) = Some (xpos (cur ax h), 0, xdata ev, ydata ev) \<and>
               (\<forall>h'. h' \<noteq> h \<longrightarrow> cur ax' h' = cur ax h') \<and>
               spanlist ax' = spanlist ax \<and> spans ax' = spans ax))"
proof (intro conjI impI)
  assume "orient (cur ax h) = ''vertspan''"
  with assms show "on_press h ev ax =
      Inr (upd_cur h (\<lambda>c. c\<lparr>press := Some (xpos c, 0, xdata ev, ydata ev)\<rparr>) ax)"
    by (simp add: on_press_def Let_def)
next
  assume a: "orient (cur ax h) \<noteq> ''vertspan'' \<and> h \<in> set (curlist_of ax)"
  then obtain l where l: "curlist ax = Some l" and hl: "h \<in> set l"
    by (cases "curlist ax") (auto simp: curlist_of_def)
  let ?ax1 = "upd_cur h (\<lambda>c. c\<lparr>press := Some (xpos c, 0, xdata ev, ydata ev)\<rparr>) ax"
  let ?ax' = "upd_cur h (\<lambda>c. c\<lparr>cids := False\<rparr>) (?ax1\<lparr>curlist := Some (remove1 h l)\<rparr>)"
  have "on_press h ev ax = Inr ?ax'"
    using assms a l hl by (simp add: on_press_def Let_def remcur_def)
  moreover have "curlist ?ax' = Some (remove1 h (curlist_of ax))"
    using l by (simp add: curlist_of_def)
  moreover have "\<not> cids (cur ?ax' h)"
    "press (cur ?ax' h) = Some (xpos (cur ax h), 0, xdata ev, ydata ev)"
    using assms(1) by (simp_all add: cur_def upd_cur_def)
  moreover have "\<forall>h'. h' \<noteq> h \<longrightarrow> cur ?ax' h' = cur ax h'"
    by (simp add: cur_def upd_cur_def)
  moreover have "spanlist ?ax' = spanlist ax" "spans ?ax' = spans ax"
    by (simp_all add: upd_cur_def)
  ultimately show "\<exists>ax'. on_press h ev ax = Inr ax' \<and>
               curlist ax' = Some (remove1 h (curlist_of ax)) \<and>
               \<not> cids (cur ax' h) \<and>
               press (cur ax' h) = Some (xpos (cur ax h), 0, xdata ev, ydata ev) \<and>
               (\<forall>h'. h' \<noteq> h \<longrightarrow> cur ax' h' = cur ax h') \<and>
               spanlist ax' = spanlist ax \<and> spans ax' = spans ax"
    by blast
qed

theorem secondary_press_witness:
  "on_press 0 (pointer_at True 3 (- 3)) (one_span (- 3) 3) =
     Inr (upd_cur 0 (\<lambda>c. c\<lparr>press := Some (xpos c, 0, - 3, 0)\<rparr>) (one_span (- 3) 3)) \<and>
   (\<exists>ax'. on_press 0 (pointer_at True 3 2) (one_cursor 2) = Inr ax' \<and>
      curlist ax' = Some [] \<and> \<not> cids (cur ax' 0) \<and> press (cur ax' 0) = Some (2, 0, 2, 0))"
  using secondary_press [of 0 "one_span (- 3) 3" "pointer_at True 3 (- 3)"]
    secondary_press [of 0 "one_cursor 2" "pointer_at True 3 2"]
  by (auto simp: one_span_def one_cursor_def new_axes_def pointer_at_def cur_def curlist_of_def)


subsection \<open>C7: a fixed cursor is not dragged\<close>

lemma set_mode_facts [simp]:
  "length (cursors (set_mode h m ax)) = length (cursors ax)"
  "curlist (set_mode h m ax) = curlist ax"
  "press (cur (set_mode h m ax) h') = press (cur ax h')"
  "xpos (cur (set_mode h m ax) h') = xpos (cur ax h')"
  "mode (cur (set_mode h m ax) h') = (if h' = h \<and> h < length (cursors ax) then m else mode (cur ax h'))"
  by (simp_all add: set_mode_def)

lemma fold_set_mode_same:
  "length (cursors (fold (\<lambda>ci. set_mode ci m) l ax)) = length (cursors ax) \<and>
   curlist (fold (\<lambda>ci. set_mode ci m) l ax) = curlist ax \<and>
   press (cur (fold (\<lambda>ci. set_mode ci m) l ax) h) = press (cur ax h) \<and>
   xpos (cur (fold (\<lambda>ci. set_mode ci m) l ax) h) = xpos (cur ax h)"
  by (induction l arbitrary: ax) simp_all

lemma fold_set_mode_keep:
  "mode (cur ax h) = m \<Longrightarrow> mode (cur (fold (\<lambda>ci. set_mode ci m) l ax) h) = m"
  by (induction l arbitrary: ax) simp_all

lemma fold_set_mode_mode:
  "h \<in> set l \<Longrightarrow> h < length (cursors ax) \<Longrightarrow>
   mode (cur (fold (\<lambda>ci. set_mode ci m) l ax) h) = m"
proof (induction l arbitrary: ax)
  case Nil
  then show ?case by simp
next
  case (Cons a l)
  show ?case
  proof (cases "h = a")
    case True
    with Cons.prems have "mode (cur (set_mode a m ax) h) = m" by simp
    then show ?thesis by (simp add: fold_set_mode_keep)
  next
    case False
    with Cons.prems Cons.IH [of "set_mode a m ax"] show ?thesis by simp
  qed
qed

lemma idle_fixed_deliver:
  assumes "fst he < length (cursors ax)" and "mode (cur ax (fst he)) = ''fixed''"
    and "press (cur ax (fst he)) = None"
  shows "deliver he ax = Inr ax"
proof -
  have "(cursors ax ! fst he)\<lparr>press := None\<rparr> = cursors ax ! fst he"
    using assms(3) by (cases "cursors ax ! fst he") (simp add: cur_def)
  then have "on_release (fst he) ev ax = ax" for ev
    by (simp add: on_release_def upd_cur_def)
  with assms(2,3) show ?thesis
    by (cases "snd he") (simp_all add: deliver_def on_press_def on_motion_def)
qed

lemma idle_fixed_run:
  "\<forall>he \<in> set es. fst he < length (cursors ax) \<and> mode (cur ax (fst he)) = ''fixed'' \<and>
      press (cur ax (fst he)) = None \<Longrightarrow> run es ax = Inr ax"
  by (induction es) (simp_all add: idle_fixed_deliver)

text \<open>
  C7 says that no sequence of press and motion events changes the position of a
  cursor whose mode is \<open>fixed\<close>, and that after \<open>setcursormode('fixed', 'all')\<close>
  no cursor moves under any such sequence. \<open>_on_press\<close> is the only handler that
  looks at the mode: \<open>set_mode\<close> leaves the press state as it is, and \<open>_on_motion\<close>
  tests the press state only. So a cursor that is being dragged when its mode becomes
  \<open>fixed\<close> goes on following the pointer. A cursor at 2 is pressed with the left
  button; \<open>setcursormode('fixed', 'all')\<close> makes it fixed and leaves it at 2; a press
  and a motion to 4 follow, and the fixed cursor is at 4.
\<close>

theorem fixed_cursor_dragged:
  "bind (run [(0, Press (pointer_at True 1 2))] (one_cursor 2)) (\<lambda>ax1.
   bind (setcursormode ''fixed'' All ax1) (\<lambda>ax2.
   map_sum id (\<lambda>ax3. (mode (cur ax2 0), xpos (cur ax2 0), mode (cur ax3 0), xpos (cur ax3 0)))
     (run [(0, Press (pointer_at True 1 2)), (0, Motion (pointer_at True 1 4))] ax2)))
   = Inr (''fixed'', 2, ''fixed'', 4)"
  by (simp add: deliver_def on_press_def on_motion_def setcursormode_def set_mode_def
      one_cursor_def new_axes_def pointer_at_def cur_def upd_cur_def Let_def)



subsection \<open>C4: deleting a span\<close>

lemma getcur_loop_None:
  "\<forall>h \<in> set l. \<exists>k. get_id (cur ax h) = Inr k \<and> k \<noteq> i \<Longrightarrow> getcur_loop i ax l = Inr None"
  by (induction l) auto




subsection \<open>C2: a span row without a partner\<close>

text \<open>
  C2 says that a table whose last \<open>vertspan\<close> row has no partner makes
  \<open>loadcurinfo\<close> report a fatal error and abort. The loop has no such check: the
  row stays in the buffer \<open>last_row\<close> when the loop ends, and the function returns
  the table as after any other load. Loading a table of one \<open>vertspan\<close> row into a
  new axes returns normally and leaves the axes as it was.
\<close>

theorem load_unpaired_row_returns:
  "loadcurinfo new_axes [a_row ''vertspan'' 0] = Inr new_axes"
  by (simp add: loadcurinfo_def a_row_def)

text \<open>
  C2 as the code has it: when the number of \<open>vertspan\<close> rows is odd, the last of them
  (the row \<open>r\<close>, after an even number of them and before none) is passed over.
  \<open>loadcurinfo\<close> returns normally, with the axes that loading the table without
  that row gives: nothing is installed for the row, and every other row is installed.
\<close>

theorem load_drops_unpaired_row:
  assumes "handles_ok ax" and "row_type r = ''vertspan''"
    and "even (length (filter (\<lambda>x. row_type x = ''vertspan'') pre))"
    and "\<forall>x \<in> set post. row_type x \<noteq> ''vertspan''"
  shows "\<exists>ax'. loadcurinfo ax (pre @ r # post) = Inr ax' \<and> loadcurinfo ax (pre @ post) = Inr ax'"
proof -
  from assms(3) have b: "buffer_after None pre = None"
    by (simp add: buffer_after_parity)
  have "load_state None (pre @ r # post) ax = load_state (Some r) post (load_state None pre ax)"
    using assms(2) by (simp add: load_state_append b)
  also have "\<dots> = load_state None post (load_state None pre ax)"
    using assms(4) by (rule load_state_no_span)
  also have "\<dots> = load_state None (pre @ post) ax"
    by (simp add: load_state_append b)
  finally show ?thesis
    using assms(1) by (simp add: loadcurinfo_def load_rows_eq)
qed

theorem load_drops_unpaired_row_witness:
  "loadcurinfo new_axes [a_row ''vertical'' 2, a_row ''vertspan'' 0] = Inr (one_cursor 2) \<and>
   loadcurinfo new_axes [a_row ''vertical'' 2] = Inr (one_cursor 2)"
proof -
  have ok: "handles_ok new_axes"
    by (simp add: handles_ok_def new_axes_def curlist_of_def)
  have i: "initcur 0 (a_row ''vertical'' 2) (one_cursor 2) = Inr (one_cursor 2)"
    by (simp add: initcur_def a_row_def set_tag_def set_color_def set_mode_def one_cursor_def
        new_axes_def cur_def upd_cur_def match_at_def is_digit_def group0_def)
  have f: "row_type (a_row ty x) = ty" "row_xpos (a_row ty x) = x" for ty x
    by (simp_all add: a_row_def)
  have "loadcurinfo new_axes [a_row ''vertical'' 2] = Inr (one_cursor 2)"
    by (simp add: loadcurinfo_def f placecursor_new_axes i)
  with load_drops_unpaired_row [OF ok, of "a_row ''vertspan'' 0" "[a_row ''vertical'' 2]" "[]"]
  show ?thesis by (simp add: f)
qed

subsection \<open>C1: saving and loading\<close>

text \<open>
  The axes that creations and settings reach is described by a layout: the list of
  what was created, the newest first, a cursor with its description or a span with
  the descriptions of its two cursors and its colour. \<open>build\<close> makes the axes of a
  layout: the cursor of index \<open>i\<close> has the id \<open>i + 1\<close> behind the prefix of its
  description. \<open>rows_of\<close> is the table of a layout, and \<open>relaid\<close> what a
  description is after a load: the line style is the one of the mode.
\<close>

record cdesc =
  d_xpos :: real
  d_mode :: string
  d_color :: string
  d_ls :: string
  d_prefix :: string

datatype item = ICur cdesc | ISpan cdesc cdesc string

fun n_cur :: "item list \<Rightarrow> nat" where
  "n_cur [] = 0"
| "n_cur (ICur d # its) = Suc (n_cur its)"
| "n_cur (ISpan dl dh c # its) = Suc (Suc (n_cur its))"

fun n_span :: "item list \<Rightarrow> nat" where
  "n_span [] = 0"
| "n_span (ICur d # its) = n_span its"
| "n_span (ISpan dl dh c # its) = Suc (n_span its)"

definition mk_cursor :: "nat \<Rightarrow> string \<Rightarrow> handle option \<Rightarrow> cdesc \<Rightarrow> cursor" where
  "mk_cursor i ori so d =
     \<lparr>press = None, mode = d_mode d, orient = ori, color = d_color d, xpos = d_xpos d,
      ls = d_ls d, kw_ls = ''--'', tag = Some (d_prefix d @ group0 (str (int i + 1))),
      spanobj = so, cids = True\<rparr>"

definition mk_span :: "nat \<Rightarrow> cdesc \<Rightarrow> cdesc \<Rightarrow> string \<Rightarrow> span" where
  "mk_span n dl dh c =
     \<lparr>span_low = n, span_high = Suc n, span_color = c,
      vspan = axvspan (d_xpos dl) (d_xpos dh), vspan_on_axes = True, span_cid = True\<rparr>"

fun build :: "axes \<Rightarrow> item list \<Rightarrow> axes" where
  "build b [] = b"
| "build b (ICur d # its) = grown (build b its) (mk_cursor (n_cur its) ''vertical'' None d)"
| "build b (ISpan dl dh c # its) =
     ext2 (build b its)
       (mk_cursor (n_cur its) ''vertspan'' (Some (n_span its)) dl)
       (mk_cursor (Suc (n_cur its)) ''vertspan'' (Some (n_span its)) dh)
       (mk_span (n_cur its) dl dh c)"

definition fresh :: "axes \<Rightarrow> bool" where
  "fresh b = (curlist b = None \<and> spanlist b = None \<and> cursors b = [] \<and> spans b = [])"

fun desc_ok :: "item \<Rightarrow> bool" where
  "desc_ok (ICur d) = (re_search (d_prefix d) = None)"
| "desc_ok (ISpan dl dh c) = (re_search (d_prefix dl) = None \<and> re_search (d_prefix dh) = None)"

lemma build_sizes:
  assumes "fresh b"
  shows "length (cursors (build b its)) = n_cur its"
    and "length (spans (build b its)) = n_span its"
    and "curlist_of (build b its) = [0..<n_cur its]"
    and "spanlist_of (build b its) = [0..<n_span its]"
proof -
  have "length (cursors (build b its)) = n_cur its \<and>
        length (spans (build b its)) = n_span its \<and>
        curlist_of (build b its) = [0..<n_cur its] \<and>
        spanlist_of (build b its) = [0..<n_span its]"
  proof (induction its rule: n_cur.induct)
    case 1
    from assms show ?case by (simp add: fresh_def curlist_of_def spanlist_of_def)
  next
    case (2 d its)
    then show ?case by (simp add: grown_def curlist_of_def spanlist_of_def)
  next
    case (3 dl dh c its)
    then show ?case by (simp add: ext2_def curlist_of_def spanlist_of_def)
  qed
  then show "length (cursors (build b its)) = n_cur its"
    and "length (spans (build b its)) = n_span its"
    and "curlist_of (build b its) = [0..<n_cur its]"
    and "spanlist_of (build b its) = [0..<n_span its]"
    by simp_all
qed

lemma build_lists:
  assumes "fresh b" and "its \<noteq> []"
  shows "curlist (build b its) = Some [0..<n_cur its]"
proof (cases its)
  case Nil
  with assms(2) show ?thesis by simp
next
  case (Cons it its')
  show ?thesis
    unfolding Cons using build_sizes(1,3) [OF assms(1), of its']
    by (cases it) (simp_all add: grown_def ext2_def)
qed

lemma spanlist_build:
  assumes "fresh b"
  shows "spanlist (build b its) = (if n_span its = 0 then None else Some [0..<n_span its])"
proof (induction its rule: n_cur.induct)
  case 1
  from assms show ?case by (simp add: fresh_def)
next
  case (2 d its)
  then show ?case by (simp add: grown_def)
next
  case (3 dl dh c its)
  then show ?case
    using build_sizes(2,4) [OF assms, of its] by (simp add: ext2_def)
qed


lemma ids_upto_grown_scan:
  assumes "ids_upto ax n" and "scan_id c = Some (int n + 1)"
  shows "ids_upto (grown ax c) (Suc n)"
proof -
  from assms(1) have ok: "handles_ok ax" by (simp add: ids_upto_def)
  have old: "map (\<lambda>h. scan_id (cur (grown ax c) h)) (curlist_of ax) =
             map (\<lambda>h. scan_id (cur ax h)) (curlist_of ax)"
  proof (rule map_cong [OF refl])
    fix h assume "h \<in> set (curlist_of ax)"
    with ok have "h < length (cursors ax)" by (simp add: handles_ok_def)
    then show "scan_id (cur (grown ax c) h) = scan_id (cur ax h)"
      by (simp add: grown_def cur_def nth_append)
  qed
  have "map (\<lambda>h. scan_id (cur (grown ax c) h)) (curlist_of (grown ax c)) =
        map (\<lambda>h. scan_id (cur ax h)) (curlist_of ax) @ [Some (int n + 1)]"
    using old assms(2) by (simp add: grown_def curlist_of_def cur_def)
  with assms(1) handles_ok_grown [OF ok, of c] show ?thesis
    by (simp add: ids_upto_def add.commute)
qed

lemma ids_upto_ext2:
  assumes "ids_upto ax n" and "scan_id a = Some (int n + 1)" and "scan_id b = Some (int n + 2)"
  shows "ids_upto (ext2 ax a b sp) (Suc (Suc n))"
proof -
  have 1: "ids_upto (grown ax a) (Suc n)"
    using assms(1,2) by (rule ids_upto_grown_scan)
  have 2: "ids_upto (grown (grown ax a) b) (Suc (Suc n))"
    using 1 by (rule ids_upto_grown_scan) (simp add: assms(3))
  show ?thesis
    by (rule ids_upto_tags [OF _ _ 2]) (simp_all add: ext2_def grown_def curlist_of_def)
qed

lemma scan_id_mk_cursor:
  "re_search (d_prefix d) = None \<Longrightarrow> scan_id (mk_cursor i ori so d) = Some (int i + 1)"
  by (rule get_id_label(2) [where p = "d_prefix d"]) (simp_all add: mk_cursor_def)

lemma ids_upto_build:
  assumes "fresh b"
  shows "list_all desc_ok its \<Longrightarrow> ids_upto (build b its) (n_cur its)"
proof (induction its rule: n_cur.induct)
  case 1
  from assms show ?case
    by (simp add: ids_upto_def handles_ok_def fresh_def curlist_of_def)
next
  case (2 d its)
  then show ?case
    by (simp add: ids_upto_grown_scan scan_id_mk_cursor)
next
  case (3 dl dh c its)
  then have "ids_upto (build b its) (n_cur its)" by simp
  then show ?case
    using 3 by (simp add: ids_upto_ext2 scan_id_mk_cursor)
qed

lemma handles_ok_build: "fresh b \<Longrightarrow> list_all desc_ok its \<Longrightarrow> handles_ok (build b its)"
  using ids_upto_build [of b its] by (simp add: ids_upto_def)

lemma new_tag_build:
  "fresh b \<Longrightarrow> list_all desc_ok its \<Longrightarrow> new_tag (build b its) = group0 (str (int (n_cur its) + 1))"
  by (rule new_tag_upto) (rule ids_upto_build)

definition d0 :: "real \<Rightarrow> cdesc" where
  "d0 x = \<lparr>d_xpos = x, d_mode = ''interact'', d_color = ''r'', d_ls = ''--'', d_prefix = []\<rparr>"

lemma new_cursor_build:
  assumes "fresh b" and "list_all desc_ok its"
  shows "new_cursor (build b its) x ori ''interact'' ''r'' ''--'' = mk_cursor (n_cur its) ori None (d0 x)"
  using new_tag_build [OF assms]
  by (simp add: new_cursor_def mk_cursor_def d0_def)

lemma placecursor_build:
  assumes "fresh b" and "list_all desc_ok its"
  shows "\<exists>x. placecursor (build b its) pos = Inr (n_cur its, build b (ICur (d0 x) # its))"
proof -
  obtain x where "placecursor (build b its) pos =
      DragCursor_init (build b its) x ''vertical'' ''interact'' ''r'' ''--''"
    by (simp add: placecursor_def Let_def)
  then have "placecursor (build b its) pos = Inr (n_cur its, build b (ICur (d0 x) # its))"
    using handles_ok_build [OF assms] build_sizes(1) [OF assms(1), of its]
    by (simp add: DragCursor_init_grown new_cursor_build [OF assms])
  then show ?thesis ..
qed

lemma placespan_build_pair:
  assumes "fresh b" and "list_all desc_ok its"
  shows "placespan (build b its) (Pair lo hi) =
           Inr (n_span its, build b (ISpan (d0 lo) (d0 hi) ''r'' # its))"
proof -
  let ?ax = "build b its"
  have ok: "handles_ok ?ax" using assms by (rule handles_ok_build)
  have n: "length (cursors ?ax) = n_cur its" "length (spans ?ax) = n_span its"
    using assms(1) by (simp_all add: build_sizes)
  have c1: "new_cursor ?ax lo ''vertspan'' ''interact'' ''r'' ''--'' =
      mk_cursor (n_cur its) ''vertspan'' None (d0 lo)"
    using assms by (rule new_cursor_build)
  have "ids_upto (grown ?ax (mk_cursor (n_cur its) ''vertspan'' None (d0 lo))) (Suc (n_cur its))"
    using ids_upto_build [OF assms]
    by (rule ids_upto_grown_scan) (simp add: scan_id_mk_cursor d0_def)
  then have "new_tag (grown ?ax (mk_cursor (n_cur its) ''vertspan'' None (d0 lo))) =
      group0 (str (int (Suc (n_cur its)) + 1))"
    by (rule new_tag_upto)
  then have c2: "new_cursor (grown ?ax (mk_cursor (n_cur its) ''vertspan'' None (d0 lo)))
        hi ''vertspan'' ''interact'' ''r'' ''--'' =
      mk_cursor (Suc (n_cur its)) ''vertspan'' None (d0 hi)"
    by (simp add: new_cursor_def mk_cursor_def d0_def)
  show ?thesis
    unfolding placespan_ext2 [OF ok] c1 c2 n
    by (simp add: mk_cursor_def mk_span_def d0_def)
qed

lemma placespan_build:
  assumes "fresh b" and "list_all desc_ok its"
  shows "\<exists>lo hi. placespan (build b its) pos =
           Inr (n_span its, build b (ISpan (d0 lo) (d0 hi) ''r'' # its))"
proof -
  obtain lo hi where "placespan (build b its) pos = placespan (build b its) (Pair lo hi)"
    by (cases pos) (simp_all add: placespan_def Let_def)
  with placespan_build_pair [OF assms] show ?thesis by auto
qed

lemma upd_cur_grown:
  "h < length (cursors ax) \<Longrightarrow> upd_cur h F (grown ax c) = grown (upd_cur h F ax) c"
  "upd_cur (length (cursors ax)) F (grown ax c) = grown ax (F c)"
  by (simp_all add: grown_def upd_cur_def curlist_of_def nth_append list_update_append)

lemma upd_cur_ext2_old:
  "h < length (cursors ax) \<Longrightarrow> upd_cur h F (ext2 ax a b sp) = ext2 (upd_cur h F ax) a b sp"
  by (simp add: ext2_def upd_cur_def curlist_of_def spanlist_of_def nth_append list_update_append)

lemma upd_span_old:
  "upd_span s G (grown ax c) = grown (upd_span s G ax) c"
  "s < length (spans ax) \<Longrightarrow> upd_span s G (ext2 ax a b sp) = ext2 (upd_span s G ax) a b sp"
  by (simp_all add: grown_def ext2_def upd_span_def curlist_of_def spanlist_of_def nth_append
      list_update_append)

lemma upd_cur_build:
  assumes "fresh b"
    and F: "\<And>ori so d. F (mk_cursor h ori so d) = mk_cursor h ori so (f d)"
    and x: "\<And>d. d_xpos (f d) = d_xpos d"
    and p: "\<And>d. re_search (d_prefix d) = None \<Longrightarrow> re_search (d_prefix (f d)) = None"
  shows "h < n_cur its \<Longrightarrow> list_all desc_ok its \<Longrightarrow>
         \<exists>its'. upd_cur h F (build b its) = build b its' \<and> list_all desc_ok its' \<and>
                n_cur its' = n_cur its \<and> n_span its' = n_span its"
proof (induction its rule: n_cur.induct)
  case 1
  then show ?case by simp
next
  case (2 d its)
  note len = build_sizes(1) [OF assms(1), of its]
  show ?case
  proof (cases "h = n_cur its")
    case True
    have "upd_cur h F (build b (ICur d # its)) = build b (ICur (f d) # its)"
      using len upd_cur_grown(2) [where ax = "build b its"] by (simp add: F True [symmetric])
    moreover have "list_all desc_ok (ICur (f d) # its)"
      using "2.prems"(2) by (simp add: p)
    ultimately show ?thesis by (intro exI [of _ "ICur (f d) # its"]) simp
  next
    case False
    with "2.prems" have h: "h < n_cur its" and ok: "list_all desc_ok its" by simp_all
    from "2.IH" [OF h ok] obtain its' where
      1: "upd_cur h F (build b its) = build b its'" and 2: "list_all desc_ok its'"
      and 3: "n_cur its' = n_cur its" and 4: "n_span its' = n_span its"
      by blast
    have "upd_cur h F (build b (ICur d # its)) = build b (ICur d # its')"
      using h len by (simp add: upd_cur_grown(1) 1 3)
    moreover have "list_all desc_ok (ICur d # its')"
      using "2.prems"(2) 2 by simp
    ultimately show ?thesis using 3 4 by (intro exI [of _ "ICur d # its'"]) simp
  qed
next
  case (3 dl dh c its)
  note len = build_sizes(1) [OF assms(1), of its]
  consider "h = n_cur its" | "h = Suc (n_cur its)" | "h < n_cur its"
    using "3.prems"(1) by fastforce
  then show ?case
  proof cases
    case 1
    have "upd_cur h F (build b (ISpan dl dh c # its)) = build b (ISpan (f dl) dh c # its)"
      using len ext2_upd(1) [where ax = "build b its"] by (simp add: F mk_span_def x 1 [symmetric])
    moreover have "list_all desc_ok (ISpan (f dl) dh c # its)"
      using "3.prems"(2) by (simp add: p)
    ultimately show ?thesis by (intro exI [of _ "ISpan (f dl) dh c # its"]) simp
  next
    case 2
    have "upd_cur h F (build b (ISpan dl dh c # its)) = build b (ISpan dl (f dh) c # its)"
      using len ext2_upd(2) [where ax = "build b its"] by (simp add: F mk_span_def x 2 [symmetric])
    moreover have "list_all desc_ok (ISpan dl (f dh) c # its)"
      using "3.prems"(2) by (simp add: p)
    ultimately show ?thesis by (intro exI [of _ "ISpan dl (f dh) c # its"]) simp
  next
    case 3
    from "3.prems" have ok: "list_all desc_ok its" by simp
    from "3.IH" [OF 3 ok] obtain its' where
      1: "upd_cur h F (build b its) = build b its'" and 2: "list_all desc_ok its'"
      and 3: "n_cur its' = n_cur its" and 4: "n_span its' = n_span its"
      by blast
    have "upd_cur h F (build b (ISpan dl dh c # its)) = build b (ISpan dl dh c # its')"
      using \<open>h < n_cur its\<close> len by (simp add: upd_cur_ext2_old 1 3 4)
    moreover have "list_all desc_ok (ISpan dl dh c # its')"
      using "3.prems"(2) 2 by simp
    ultimately show ?thesis using 3 4 by (intro exI [of _ "ISpan dl dh c # its'"]) simp
  qed
qed

lemma upd_span_build:
  assumes "fresh b"
    and G: "\<And>n dl dh c. G (mk_span n dl dh c) = mk_span n dl dh (g c)"
  shows "s < n_span its \<Longrightarrow> list_all desc_ok its \<Longrightarrow>
         \<exists>its'. upd_span s G (build b its) = build b its' \<and> list_all desc_ok its' \<and>
                n_cur its' = n_cur its \<and> n_span its' = n_span its"
proof (induction its rule: n_cur.induct)
  case 1
  then show ?case by simp
next
  case (2 d its)
  then obtain its' where
      1: "upd_span s G (build b its) = build b its'" and 2: "list_all desc_ok its'"
      and 3: "n_cur its' = n_cur its" and 4: "n_span its' = n_span its"
    by auto
  have "upd_span s G (build b (ICur d # its)) = build b (ICur d # its')"
    by (simp add: upd_span_old(1) 1 3)
  moreover have "list_all desc_ok (ICur d # its')"
    using "2.prems"(2) 2 by simp
  ultimately show ?case using 3 4 by (intro exI [of _ "ICur d # its'"]) simp
next
  case (3 dl dh c its)
  note len = build_sizes(2) [OF assms(1), of its]
  show ?case
  proof (cases "s = n_span its")
    case True
    have "upd_span s G (build b (ISpan dl dh c # its)) = build b (ISpan dl dh (g c) # its)"
      using True len ext2_upd(3) [where ax = "build b its"] by (simp add: G)
    moreover have "list_all desc_ok (ISpan dl dh (g c) # its)"
      using "3.prems"(2) by simp
    ultimately show ?thesis by (intro exI [of _ "ISpan dl dh (g c) # its"]) simp
  next
    case False
    with "3.prems" have s: "s < n_span its" and ok: "list_all desc_ok its" by simp_all
    from "3.IH" [OF s ok] obtain its' where
      1: "upd_span s G (build b its) = build b its'" and 2: "list_all desc_ok its'"
      and 3: "n_cur its' = n_cur its" and 4: "n_span its' = n_span its"
      by blast
    have "upd_span s G (build b (ISpan dl dh c # its)) = build b (ISpan dl dh c # its')"
      using s len by (simp add: upd_span_old(2) 1 3 4)
    moreover have "list_all desc_ok (ISpan dl dh c # its')"
      using "3.prems"(2) 2 by simp
    ultimately show ?thesis using 3 4 by (intro exI [of _ "ISpan dl dh c # its'"]) simp
  qed
qed


lemma cur_grown:
  "h < length (cursors ax) \<Longrightarrow> cur (grown ax c) h = cur ax h"
  "cur (grown ax c) (length (cursors ax)) = c"
  by (simp_all add: grown_def cur_def nth_append)

lemma cur_ext2_old: "h < length (cursors ax) \<Longrightarrow> cur (ext2 ax a b sp) h = cur ax h"
  by (simp add: ext2_def cur_def nth_append)

lemma cur_build:
  assumes "fresh b"
  shows "h < n_cur its \<Longrightarrow> list_all desc_ok its \<Longrightarrow>
         \<exists>ori so d. cur (build b its) h = mk_cursor h ori so d \<and> re_search (d_prefix d) = None \<and>
           (ori = ''vertical'' \<or> ori = ''vertspan'' \<and> (\<exists>s. so = Some s \<and> s < n_span its))"
proof (induction its rule: n_cur.induct)
  case 1
  then show ?case by simp
next
  case (2 d its)
  note len = build_sizes(1) [OF assms(1), of its]
  show ?case
  proof (cases "h = n_cur its")
    case True
    have "cur (build b (ICur d # its)) h = mk_cursor h ''vertical'' None d"
      using len cur_grown(2) [where ax = "build b its"] by (simp add: True)
    with "2.prems"(2) show ?thesis by auto
  next
    case False
    with "2.prems" have h: "h < n_cur its" and ok: "list_all desc_ok its" by simp_all
    from "2.IH" [OF h ok] h len show ?thesis by (simp add: cur_grown(1))
  qed
next
  case (3 dl dh c its)
  note len = build_sizes(1) [OF assms(1), of its]
  consider "h = n_cur its" | "h = Suc (n_cur its)" | "h < n_cur its"
    using "3.prems"(1) by fastforce
  then show ?case
  proof cases
    case 1
    have "cur (build b (ISpan dl dh c # its)) h = mk_cursor h ''vertspan'' (Some (n_span its)) dl"
      using len ext2_read(1) [where ax = "build b its"] by (simp add: 1)
    with "3.prems"(2) show ?thesis by auto
  next
    case 2
    have "cur (build b (ISpan dl dh c # its)) h = mk_cursor h ''vertspan'' (Some (n_span its)) dh"
      using len ext2_read(2) [where ax = "build b its"] by (simp add: 2)
    with "3.prems"(2) show ?thesis by auto
  next
    case 3
    from "3.prems" have ok: "list_all desc_ok its" by simp
    from "3.IH" [OF 3 ok] obtain ori so d where
      c: "cur (build b its) h = mk_cursor h ori so d" and p: "re_search (d_prefix d) = None"
      and k: "ori = ''vertical'' \<or> ori = ''vertspan'' \<and> (\<exists>s. so = Some s \<and> s < n_span its)"
      by blast
    from c 3 len have "cur (build b (ISpan dl dh c # its)) h = mk_cursor h ori so d"
      by (simp add: cur_ext2_old)
    moreover from k have "ori = ''vertical'' \<or>
        ori = ''vertspan'' \<and> (\<exists>s. so = Some s \<and> s < n_span (ISpan dl dh c # its))"
      by auto
    ultimately show ?thesis using p by blast
  qed
qed

lemma span_build:
  assumes "fresh b"
  shows "s < n_span its \<Longrightarrow>
         \<exists>n dl dh c. spans (build b its) ! s = mk_span n dl dh c \<and> Suc n < n_cur its"
proof (induction its rule: n_cur.induct)
  case 1
  then show ?case by simp
next
  case (2 d its)
  then obtain n dl dh c where "spans (build b its) ! s = mk_span n dl dh c" "Suc n < n_cur its"
    by auto
  then have "spans (build b (ICur d # its)) ! s = mk_span n dl dh c"
    and "Suc n < n_cur (ICur d # its)"
    by (simp_all add: grown_def)
  then show ?case by blast
next
  case (3 dl dh c its)
  note len = build_sizes(2) [OF assms(1), of its]
  show ?case
  proof (cases "s = n_span its")
    case True
    with len have "spans (build b (ISpan dl dh c # its)) ! s = mk_span (n_cur its) dl dh c"
      by (simp add: ext2_def nth_append)
    moreover have "Suc (n_cur its) < n_cur (ISpan dl dh c # its)" by simp
    ultimately show ?thesis by blast
  next
    case False
    with "3.prems" have s: "s < n_span its" by simp
    from "3.IH" [OF s] obtain n dl' dh' c' where
      "spans (build b its) ! s = mk_span n dl' dh' c'" "Suc n < n_cur its"
      by blast
    with s len have "spans (build b (ISpan dl dh c # its)) ! s = mk_span n dl' dh' c'"
      and "Suc n < n_cur (ISpan dl dh c # its)"
      by (simp_all add: ext2_def nth_append)
    then show ?thesis by blast
  qed
qed

lemma str_digits: "0 \<le> i \<Longrightarrow> str i \<noteq> [] \<and> (\<forall>c \<in> set (str i). is_digit c)"
  by (simp add: str_def str_nat_nonempty str_nat_digits)

lemma set_tag_build:
  assumes "fresh b" and "h < n_cur its" and "list_all desc_ok its"
  shows "set_tag h t (build b its) =
     Inr (upd_cur h (\<lambda>c. c\<lparr>tag := Some (tag_prefix t @ group0 (str (int h + 1)))\<rparr>) (build b its))"
proof -
  from cur_build [OF assms] obtain ori so d where
    c: "cur (build b its) h = mk_cursor h ori so d" and p: "re_search (d_prefix d) = None"
    by blast
  have t: "tag (cur (build b its) h) = Some (d_prefix d @ group0 (str (int h + 1)))"
    by (simp add: c mk_cursor_def)
  have "0 \<le> int h + 1" by simp
  then have "str (int h + 1) \<noteq> []" "\<forall>c \<in> set (str (int h + 1)). is_digit c"
    using str_digits by blast+
  with t p show ?thesis by (rule set_tag_eq)
qed

text \<open>
  One call that creates a cursor or a span, or sets a mode, a colour or a tag: the
  two placement functions, \<open>setcursormode\<close>, the setters of a cursor and of a span,
  and \<open>setcurtag\<close> with the default \<open>keep_id=True\<close>. The cursor or span that is
  changed is one of the axes, and a text that becomes part of a tag holds no id
  token. \<open>reach b ax\<close>: such calls lead from the axes \<open>b\<close> to \<open>ax\<close>.
\<close>

inductive change :: "axes \<Rightarrow> axes \<Rightarrow> bool" where
  new_cursor: "placecursor ax pos = Inr (h, ax') \<Longrightarrow> change ax ax'"
| new_span: "placespan ax spos = Inr (s, ax') \<Longrightarrow> change ax ax'"
| mode: "h \<in> set (curlist_of ax) \<Longrightarrow> change ax (set_mode h m ax)"
| modes: "setcursormode m sel ax = Inr ax' \<Longrightarrow> change ax ax'"
| color: "h \<in> set (curlist_of ax) \<Longrightarrow> change ax (set_color h col ax)"
| tag: "h \<in> set (curlist_of ax) \<Longrightarrow> re_search (tag_prefix t) = None \<Longrightarrow>
        set_tag h t ax = Inr ax' \<Longrightarrow> change ax ax'"
| rename: "(\<forall>h. cur_arg = CurObj h \<longrightarrow> h \<in> set (curlist_of ax)) \<Longrightarrow>
        re_search new_str = None \<Longrightarrow> setcurtag cur_arg new_str True ax = Inr ax' \<Longrightarrow>
        change ax ax'"
| span_color: "s \<in> set (spanlist_of ax) \<Longrightarrow> change ax (span_set_color s col ax)"
| span_tag: "s \<in> set (spanlist_of ax) \<Longrightarrow> re_search (tag_prefix t) = None \<Longrightarrow>
        span_set_tag s t ax = Inr ax' \<Longrightarrow> change ax ax'"

inductive reach :: "axes \<Rightarrow> axes \<Rightarrow> bool" for b :: axes where
  start: "reach b b"
| step: "reach b ax \<Longrightarrow> change ax ax' \<Longrightarrow> reach b ax'"

lemma set_mode_build:
  assumes "fresh b" and "h < n_cur its" and "list_all desc_ok its"
  shows "\<exists>its'. set_mode h m (build b its) = build b its' \<and> list_all desc_ok its' \<and>
                n_cur its' = n_cur its \<and> n_span its' = n_span its"
  unfolding set_mode_def
  by (rule upd_cur_build [OF assms(1) _ _ _ assms(2,3), where
        f = "\<lambda>d. d\<lparr>d_mode := m, d_ls := (if m = ''interact'' then ''--''
                                        else if m = ''fixed'' then ''-.'' else d_ls d)\<rparr>"])
    (simp_all add: mk_cursor_def)

lemma set_color_build:
  assumes "fresh b" and "h < n_cur its" and "list_all desc_ok its"
  shows "\<exists>its'. set_color h col (build b its) = build b its' \<and> list_all desc_ok its' \<and>
                n_cur its' = n_cur its \<and> n_span its' = n_span its"
  unfolding set_color_def
  by (rule upd_cur_build [OF assms(1) _ _ _ assms(2,3), where f = "\<lambda>d. d\<lparr>d_color := col\<rparr>"])
    (simp_all add: mk_cursor_def)

lemma set_tag_build_ex:
  assumes "fresh b" and "h < n_cur its" and "list_all desc_ok its"
    and "re_search (tag_prefix t) = None"
  shows "\<exists>its'. set_tag h t (build b its) = Inr (build b its') \<and> list_all desc_ok its' \<and>
                n_cur its' = n_cur its \<and> n_span its' = n_span its"
  unfolding set_tag_build [OF assms(1-3)]
  using upd_cur_build [OF assms(1) _ _ _ assms(2,3), where f = "\<lambda>d. d\<lparr>d_prefix := tag_prefix t\<rparr>"
      and F = "\<lambda>c. c\<lparr>tag := Some (tag_prefix t @ group0 (str (int h + 1)))\<rparr>"] assms(4)
  by (simp add: mk_cursor_def)


lemma span_set_color_build:
  assumes "fresh b" and "s < n_span its" and "list_all desc_ok its"
  shows "\<exists>its'. span_set_color s col (build b its) = build b its' \<and> list_all desc_ok its' \<and>
                n_cur its' = n_cur its \<and> n_span its' = n_span its"
proof -
  from span_build [OF assms(1,2)] obtain n dl dh c where
    sp: "spans (build b its) ! s = mk_span n dl dh c" and n: "Suc n < n_cur its"
    by blast
  have lo: "span_low (spans (build b its) ! s) = n" and hi: "span_high (spans (build b its) ! s) = Suc n"
    by (simp_all add: sp mk_span_def)
  from upd_span_build [OF assms(1) _ assms(2,3), where G = "\<lambda>sp. sp\<lparr>span_color := col\<rparr>"
      and g = "\<lambda>_. col"]
  obtain its1 where 1: "upd_span s (\<lambda>sp. sp\<lparr>span_color := col\<rparr>) (build b its) = build b its1"
    and ok1: "list_all desc_ok its1" and n1: "n_cur its1 = n_cur its" "n_span its1 = n_span its"
    by (auto simp: mk_span_def)
  from n n1 have "n < n_cur its1" by simp
  from set_color_build [OF assms(1) this ok1, of col]
  obtain its2 where 2: "set_color n col (build b its1) = build b its2"
    and ok2: "list_all desc_ok its2" and n2: "n_cur its2 = n_cur its1" "n_span its2 = n_span its1"
    by blast
  from n n1 n2 have "Suc n < n_cur its2" by simp
  from set_color_build [OF assms(1) this ok2, of col]
  obtain its3 where 3: "set_color (Suc n) col (build b its2) = build b its3"
    and ok3: "list_all desc_ok its3" and n3: "n_cur its3 = n_cur its2" "n_span its3 = n_span its2"
    by blast
  have "span_set_color s col (build b its) = build b its3"
    by (simp add: span_set_color_def lo hi 1 2 3)
  with ok3 n1 n2 n3 show ?thesis by auto
qed

lemma span_set_tag_build:
  assumes "fresh b" and "s < n_span its" and "list_all desc_ok its"
    and "re_search (tag_prefix t) = None"
  shows "\<exists>its'. span_set_tag s t (build b its) = Inr (build b its') \<and> list_all desc_ok its' \<and>
                n_cur its' = n_cur its \<and> n_span its' = n_span its"
proof -
  from span_build [OF assms(1,2)] obtain n dl dh c where
    sp: "spans (build b its) ! s = mk_span n dl dh c" and n: "Suc n < n_cur its"
    by blast
  have lo: "span_low (spans (build b its) ! s) = n" and hi: "span_high (spans (build b its) ! s) = Suc n"
    by (simp_all add: sp mk_span_def)
  from n have "n < n_cur its" by simp
  from set_tag_build_ex [OF assms(1) this assms(3,4)]
  obtain its1 where 1: "set_tag n t (build b its) = Inr (build b its1)"
    and ok1: "list_all desc_ok its1" and n1: "n_cur its1 = n_cur its" "n_span its1 = n_span its"
    by blast
  from n n1 have "Suc n < n_cur its1" by simp
  from set_tag_build_ex [OF assms(1) this ok1 assms(4)]
  obtain its2 where 2: "set_tag (Suc n) t (build b its1) = Inr (build b its2)"
    and ok2: "list_all desc_ok its2" and n2: "n_cur its2 = n_cur its1" "n_span its2 = n_span its1"
    by blast
  have "span_set_tag s t (build b its) = Inr (build b its2)"
    by (simp add: span_set_tag_def lo hi 1 2)
  with ok2 n1 n2 show ?thesis by auto
qed

lemma setnewname_keep: "setnewname h s True = set_tag h (Some s)"
  by (rule ext) (simp add: setnewname_def set_tag_def Let_def split: option.split)

lemma find_int_mem: "find_int n ax l c0 = Inr (Some h) \<Longrightarrow> h \<in> set l \<or> c0 = Some h"
  by (induction l arbitrary: c0) (auto split: option.splits if_splits)

lemma filter_single_mem: "filter P l = [x] \<Longrightarrow> x \<in> set l"
proof -
  assume "filter P l = [x]"
  then have "x \<in> set (filter P l)" by simp
  then show ?thesis by simp
qed

lemma setcurtag_keep_cases:
  assumes "setcurtag cur_arg new_str True ax = Inr ax'"
  shows "ax' = ax \<or>
         (\<exists>h. (h \<in> set (curlist_of ax) \<or> cur_arg = CurObj h) \<and>
            (orient (cur ax h) = ''vertical'' \<and> set_tag h (Some new_str) ax = Inr ax' \<or>
             orient (cur ax h) = ''vertspan'' \<and>
               (\<exists>s. spanobj (cur ax h) = Some s \<and> span_set_tag s (Some new_str) ax = Inr ax')))"
proof -
  let ?tail = "\<lambda>cur_obj.
         if orient (cur ax cur_obj) = ''vertspan'' then
           (case spanobj (cur ax cur_obj) of
              None \<Rightarrow> Inl AttributeError
            | Some s \<Rightarrow> span_set_tag s (Some new_str) ax)
         else if orient (cur ax cur_obj) = ''vertical'' then set_tag cur_obj (Some new_str) ax
         else Inr ax"
  have tail: "?tail h = Inr ax' \<Longrightarrow> h \<in> set (curlist_of ax) \<or> cur_arg = CurObj h \<Longrightarrow> ?thesis" for h
    by (auto split: if_splits option.splits)
  show ?thesis
  proof (cases cur_arg)
    case (CurStr str_arg)
    show ?thesis
    proof (cases "curlist ax")
      case None
      with assms CurStr show ?thesis by (simp add: setcurtag_def)
    next
      case (Some l)
      show ?thesis
      proof (cases "filter (\<lambda>ci. tag (cur ax ci) = Some str_arg) l")
        case Nil
        with assms CurStr Some show ?thesis
          by (simp add: setcurtag_def split: if_splits)
      next
        case (Cons x xs)
        show ?thesis
        proof (cases xs)
          case Nil
          with Cons have "x \<in> set l" by (auto dest: filter_single_mem)
          then have m: "x \<in> set (curlist_of ax)" by (simp add: curlist_of_def Some)
          from assms CurStr Some Cons Nil have "?tail x = Inr ax'"
            by (simp add: setcurtag_def setnewname_keep span_set_tag_def split: if_splits option.splits)
          then show ?thesis using m by (intro tail [of x]) simp_all
        next
          case (Cons y ys)
          with assms CurStr Some \<open>filter _ l = x # xs\<close> show ?thesis
            by (simp add: setcurtag_def split: if_splits)
        qed
      qed
    qed
  next
    case (CurInt n)
    show ?thesis
    proof (cases "curlist ax")
      case None
      with assms CurInt show ?thesis by (simp add: setcurtag_def)
    next
      case (Some l)
      show ?thesis
      proof (cases "find_int n ax l None")
        case (Inl e)
        with assms CurInt Some show ?thesis by (simp add: setcurtag_def)
      next
        case (Inr r)
        show ?thesis
        proof (cases r)
          case None
          with assms CurInt Some Inr show ?thesis by (simp add: setcurtag_def)
        next
          case (Some x)
          with Inr have "x \<in> set l" by (auto dest: find_int_mem)
          then have m: "x \<in> set (curlist_of ax)" by (simp add: curlist_of_def \<open>curlist ax = Some l\<close>)
          from assms CurInt \<open>curlist ax = Some l\<close> Inr Some have "?tail x = Inr ax'"
            by (simp add: setcurtag_def setnewname_keep span_set_tag_def split: if_splits option.splits)
          then show ?thesis using m by (intro tail [of x]) simp_all
        qed
      qed
    qed
  next
    case (CurObj x)
    with assms have "?tail x = Inr ax'"
      by (simp add: setcurtag_def setnewname_keep span_set_tag_def split: if_splits option.splits)
    then show ?thesis using CurObj by (intro tail [of x]) simp_all
  next
    case CurOther
    with assms show ?thesis by (simp add: setcurtag_def)
  qed
qed

lemma ids_inner_subset: "ids_inner ii ax l = Inr r \<Longrightarrow> set r \<subseteq> set l"
  by (induction l arbitrary: r) (auto split: sum.splits if_splits)

lemma ids_outer_subset: "ids_outer iis ax l = Inr r \<Longrightarrow> set r \<subseteq> set l"
proof (induction iis arbitrary: r)
  case Nil
  then show ?case by simp
next
  case (Cons ii iis)
  from Cons.prems obtain r1 r2 where 1: "ids_inner ii ax l = Inr r1"
    and 2: "ids_outer iis ax l = Inr r2" and r: "r = r1 @ r2"
    by (auto split: sum.splits)
  from 1 have "set r1 \<subseteq> set l" by (rule ids_inner_subset)
  moreover from 2 have "set r2 \<subseteq> set l" by (rule Cons.IH)
  ultimately show ?case unfolding r by simp
qed

lemma setcursormode_fold:
  assumes "setcursormode m sel ax = Inr ax'"
  shows "\<exists>hs. set hs \<subseteq> set (curlist_of ax) \<and> ax' = fold (\<lambda>ci. set_mode ci m) hs ax"
proof -
  have ids: "\<exists>hs. set hs \<subseteq> set (curlist_of ax) \<and> ax' = fold (\<lambda>ci. set_mode ci m) hs ax"
    if "(case curlist ax of None \<Rightarrow> Inl AttributeError | Some l \<Rightarrow> ids_outer iis ax l) = Inr hs"
      and "ax' = fold (\<lambda>ci. set_mode ci m) hs ax" for iis hs
  proof -
    from that(1) obtain l where l: "curlist ax = Some l" and "ids_outer iis ax l = Inr hs"
      by (auto split: option.splits)
    then have "set hs \<subseteq> set (curlist_of ax)"
      using ids_outer_subset [of iis ax l hs] by (simp add: curlist_of_def)
    with that(2) show ?thesis by blast
  qed
  show ?thesis
  proof (cases sel)
    case All
    with assms show ?thesis
      by (auto simp: setcursormode_def curlist_of_def split: option.splits)
  next
    case (Id i)
    with assms obtain hs where
      "(case curlist ax of None \<Rightarrow> Inl AttributeError | Some l \<Rightarrow> ids_outer [i] ax l) = Inr hs"
      "ax' = fold (\<lambda>ci. set_mode ci m) hs ax"
      by (auto simp: setcursormode_def bind_def split: sum.splits)
    then show ?thesis by (rule ids)
  next
    case (Ids iis)
    with assms obtain hs where
      "(case curlist ax of None \<Rightarrow> Inl AttributeError | Some l \<Rightarrow> ids_outer iis ax l) = Inr hs"
      "ax' = fold (\<lambda>ci. set_mode ci m) hs ax"
      by (auto simp: setcursormode_def bind_def split: sum.splits if_splits)
    then show ?thesis by (rule ids)
  next
    case (Objs hs)
    with assms have "ax' = fold (\<lambda>ci. set_mode ci m) [] ax"
      by (simp add: setcursormode_def split: if_splits)
    then show ?thesis by (intro exI [of _ "[]"]) simp
  qed
qed

lemma fold_set_mode_build:
  assumes "fresh b"
  shows "\<forall>h \<in> set hs. h < n_cur its \<Longrightarrow> list_all desc_ok its \<Longrightarrow>
         \<exists>its'. fold (\<lambda>ci. set_mode ci m) hs (build b its) = build b its' \<and> list_all desc_ok its' \<and>
                n_cur its' = n_cur its \<and> n_span its' = n_span its"
proof (induction hs arbitrary: its)
  case Nil
  then show ?case by auto
next
  case (Cons h hs)
  from Cons.prems have h: "h < n_cur its" by simp
  from set_mode_build [OF assms h Cons.prems(2), of m] obtain its1 where
    1: "set_mode h m (build b its) = build b its1" and ok1: "list_all desc_ok its1"
    and n1: "n_cur its1 = n_cur its" "n_span its1 = n_span its"
    by blast
  from Cons.prems n1 have "\<forall>h \<in> set hs. h < n_cur its1" by simp
  from Cons.IH [OF this ok1] obtain its2 where
    "fold (\<lambda>ci. set_mode ci m) hs (build b its1) = build b its2" "list_all desc_ok its2"
    "n_cur its2 = n_cur its1" "n_span its2 = n_span its1"
    by blast
  with 1 n1 show ?case by auto
qed

lemma setcursormode_build:
  assumes "fresh b" and "list_all desc_ok its"
    and "setcursormode m sel (build b its) = Inr ax'"
  shows "\<exists>its'. ax' = build b its' \<and> list_all desc_ok its'"
proof -
  from setcursormode_fold [OF assms(3)] obtain hs where
    hs: "set hs \<subseteq> set (curlist_of (build b its))"
    and ax': "ax' = fold (\<lambda>ci. set_mode ci m) hs (build b its)"
    by blast
  from hs have "\<forall>h \<in> set hs. h < n_cur its"
    by (auto simp: build_sizes(3) [OF assms(1)])
  from fold_set_mode_build [OF assms(1) this assms(2), of m] show ?thesis
    unfolding ax' by blast
qed

lemma setcurtag_build:
  assumes "fresh b" and "list_all desc_ok its" and "re_search new_str = None"
    and "\<forall>h. cur_arg = CurObj h \<longrightarrow> h < n_cur its"
    and "setcurtag cur_arg new_str True (build b its) = Inr ax'"
  shows "\<exists>its'. ax' = build b its' \<and> list_all desc_ok its'"
proof -
  let ?ax = "build b its"
  have tp: "re_search (tag_prefix (Some new_str)) = None"
    using assms(3) by (simp add: tag_prefix_def)
  from setcurtag_keep_cases [OF assms(5)]
  consider "ax' = ?ax"
    | h where "h \<in> set (curlist_of ?ax) \<or> cur_arg = CurObj h"
        "set_tag h (Some new_str) ?ax = Inr ax'"
    | h s where "h \<in> set (curlist_of ?ax) \<or> cur_arg = CurObj h"
        "orient (cur ?ax h) = ''vertspan''" "spanobj (cur ?ax h) = Some s"
        "span_set_tag s (Some new_str) ?ax = Inr ax'"
    by blast
  then show ?thesis
  proof cases
    case 1
    with assms(2) show ?thesis by blast
  next
    case (2 h)
    from 2(1) assms(4) have "h < n_cur its"
      by (auto simp: build_sizes(3) [OF assms(1)])
    from set_tag_build_ex [OF assms(1) this assms(2) tp] 2(2) show ?thesis by auto
  next
    case (3 h s)
    from 3(1) assms(4) have h: "h < n_cur its"
      by (auto simp: build_sizes(3) [OF assms(1)])
    from cur_build [OF assms(1) h assms(2)] obtain ori so d where
      c: "cur ?ax h = mk_cursor h ori so d"
      and k: "ori = ''vertical'' \<or> ori = ''vertspan'' \<and> (\<exists>s. so = Some s \<and> s < n_span its)"
      by blast
    from c 3(2,3) have "ori = ''vertspan''" "so = Some s" by (simp_all add: mk_cursor_def)
    with k have "s < n_span its" by auto
    from span_set_tag_build [OF assms(1) this assms(2) tp] 3(4) show ?thesis by auto
  qed
qed

lemma change_build:
  assumes "fresh b" and "list_all desc_ok its" and "change (build b its) ax'"
  shows "\<exists>its'. ax' = build b its' \<and> list_all desc_ok its'"
  using assms(3)
proof (cases rule: change.cases)
  case (new_cursor pos h)
  from placecursor_build [OF assms(1,2), of pos] new_cursor
  obtain x where "ax' = build b (ICur (d0 x) # its)" by auto
  moreover have "list_all desc_ok (ICur (d0 x) # its)" using assms(2) by (simp add: d0_def)
  ultimately show ?thesis by blast
next
  case (new_span spos s)
  from placespan_build [OF assms(1,2), of spos] new_span
  obtain lo hi where "ax' = build b (ISpan (d0 lo) (d0 hi) ''r'' # its)" by auto
  moreover have "list_all desc_ok (ISpan (d0 lo) (d0 hi) ''r'' # its)"
    using assms(2) by (simp add: d0_def)
  ultimately show ?thesis by blast
next
  case (mode h m)
  from mode(2) have "h < n_cur its" by (simp add: build_sizes(3) [OF assms(1)])
  from set_mode_build [OF assms(1) this assms(2), of m] show ?thesis unfolding mode(1) by blast
next
  case (modes m sel)
  with assms(1,2) show ?thesis by (intro setcursormode_build)
next
  case (color h col)
  from color(2) have "h < n_cur its" by (simp add: build_sizes(3) [OF assms(1)])
  from set_color_build [OF assms(1) this assms(2), of col] show ?thesis unfolding color(1) by blast
next
  case (tag h t)
  from tag(1) have "h < n_cur its" by (simp add: build_sizes(3) [OF assms(1)])
  from set_tag_build_ex [OF assms(1) this assms(2) tag(2)] tag(3) show ?thesis by auto
next
  case (rename cur_arg new_str)
  from rename(1) have "\<forall>h. cur_arg = CurObj h \<longrightarrow> h < n_cur its"
    by (simp add: build_sizes(3) [OF assms(1)])
  with assms(1,2) rename(2) show ?thesis using rename(3) by (rule setcurtag_build)
next
  case (span_color s col)
  from span_color(2) have "s < n_span its" by (simp add: build_sizes(4) [OF assms(1)])
  from span_set_color_build [OF assms(1) this assms(2), of col] show ?thesis
    unfolding span_color(1) by blast
next
  case (span_tag s t)
  from span_tag(1) have "s < n_span its" by (simp add: build_sizes(4) [OF assms(1)])
  from span_set_tag_build [OF assms(1) this assms(2) span_tag(2)] span_tag(3)
  show ?thesis by auto
qed

lemma reach_build:
  assumes "fresh b"
  shows "reach b ax \<Longrightarrow> \<exists>its. ax = build b its \<and> list_all desc_ok its"
proof (induction rule: reach.induct)
  case start
  have "b = build b [] \<and> list_all desc_ok []" by simp
  then show ?case by blast
next
  case (step ax ax')
  then obtain its where its: "ax = build b its" "list_all desc_ok its" by blast
  from step.hyps(2) have "change (build b its) ax'" by (simp only: its(1))
  with assms its(2) show ?case by (rule change_build)
qed


definition drow :: "nat \<Rightarrow> string \<Rightarrow> cdesc \<Rightarrow> row" where
  "drow i ori d =
     \<lparr>row_id = int i + 1, row_tag = Some (d_prefix d), row_xpos = d_xpos d, row_type = ori,
      row_mode = d_mode d, row_color = d_color d\<rparr>"

fun rows_of :: "item list \<Rightarrow> row list" where
  "rows_of [] = []"
| "rows_of (ICur d # its) = rows_of its @ [drow (n_cur its) ''vertical'' d]"
| "rows_of (ISpan dl dh c # its) =
     rows_of its @ [drow (n_cur its) ''vertspan'' dl, drow (Suc (n_cur its)) ''vertspan'' dh]"

lemma cur_props_mk_cursor:
  assumes "re_search (d_prefix d) = None"
  shows "cur_props (mk_cursor i ori so d) = Inr (drow i ori d)"
proof -
  have t: "tag (mk_cursor i ori so d) = Some (d_prefix d @ group0 (str (int i + 1)))"
    by (simp add: mk_cursor_def)
  have "0 \<le> int i + 1" by simp
  then have g: "get_id (mk_cursor i ori so d) = Inr (int i + 1)"
    by (rule get_id_label(1) [OF assms _ t])
  from \<open>0 \<le> int i + 1\<close> have sd: "str (int i + 1) \<noteq> []"
    "\<forall>c \<in> set (str (int i + 1)). is_digit c"
    using str_digits by blast+
  have "re_sub (d_prefix d @ group0 (str (int i + 1))) = d_prefix d"
    using assms sd by (rule re_sub_append_token)
  then have "get_tag (mk_cursor i ori so d) = Inr (d_prefix d)"
    by (simp add: get_tag_def t)
  with g show ?thesis
    by (simp add: cur_props_def drow_def mk_cursor_def)
qed

lemma collect_append:
  "collect (xs @ ys) =
     (case collect xs of
        Inl e \<Rightarrow> Inl e
      | Inr rs \<Rightarrow> (case collect ys of Inl e \<Rightarrow> Inl e | Inr rs' \<Rightarrow> Inr (rs @ rs')))"
  by (induction xs) (simp_all split: sum.split)

lemma collect_build:
  "list_all desc_ok its \<Longrightarrow> fresh b \<Longrightarrow> collect (cursors (build b its)) = Inr (rows_of its)"
proof (induction its rule: n_cur.induct)
  case 1
  then show ?case by (simp add: fresh_def)
next
  case (2 d its)
  then show ?case
    by (simp add: grown_def collect_append cur_props_mk_cursor)
next
  case (3 dl dh c its)
  then show ?case
    by (simp add: ext2_def collect_append cur_props_mk_cursor)
qed

lemma rows_of_sorted:
  "sorted (map row_id (rows_of its)) \<and> (\<forall>r \<in> set (rows_of its). row_id r \<le> int (n_cur its))"
proof (induction its rule: n_cur.induct)
  case 1
  show ?case by simp
next
  case (2 d its)
  then show ?case by (fastforce simp: sorted_append drow_def)
next
  case (3 dl dh c its)
  then show ?case by (fastforce simp: sorted_append drow_def)
qed

lemma savecurinfo_build:
  assumes "fresh b" and "list_all desc_ok its" and "its \<noteq> []"
  shows "savecurinfo (build b its) = Inr (rows_of its)"
proof -
  have "map (cur (build b its)) [0..<length (cursors (build b its))] = cursors (build b its)"
    by (simp add: cur_def [abs_def] map_nth)
  then have "map (cur (build b its)) [0..<n_cur its] = cursors (build b its)"
    by (simp only: build_sizes(1) [OF assms(1)])
  then have c: "collect (map (cur (build b its)) [0..<n_cur its]) = Inr (rows_of its)"
    using collect_build [OF assms(2,1)] by simp
  from assms(3) have ne: "rows_of its \<noteq> []"
    by (cases its rule: n_cur.cases) simp_all
  have "sort_key row_id (rows_of its) = rows_of its"
    using rows_of_sorted [of its] by (simp add: sort_key_id_if_sorted)
  with c ne show ?thesis
    by (simp add: savecurinfo_def build_lists [OF assms(1,3)])
qed


definition relaid :: "cdesc \<Rightarrow> cdesc" where
  "relaid d = d\<lparr>d_ls := (if d_mode d = ''fixed'' then ''-.'' else ''--'')\<rparr>"

fun relaid_item :: "item \<Rightarrow> item" where
  "relaid_item (ICur d) = ICur (relaid d)"
| "relaid_item (ISpan dl dh c) = ISpan (relaid dl) (relaid dh) (d_color dh)"

lemma drow_fields [simp]:
  "row_type (drow i ori d) = ori" "row_xpos (drow i ori d) = d_xpos d"
  "row_mode (drow i ori d) = d_mode d" "row_color (drow i ori d) = d_color d"
  by (simp_all add: drow_def)

lemma loaded_cursor_drow:
  "loaded_cursor (group0 (str (int i + 1))) (drow i ori' d) ori so = mk_cursor i ori so (relaid d)"
  by (simp add: loaded_cursor_def mk_cursor_def relaid_def drow_def tag_prefix_def)

lemma relaid_fields [simp]:
  "d_xpos (relaid d) = d_xpos d" "d_color (relaid d) = d_color d" "d_mode (relaid d) = d_mode d"
  "d_prefix (relaid d) = d_prefix d"
  by (simp_all add: relaid_def)

lemma relaid_counts [simp]:
  "n_cur (map relaid_item its) = n_cur its" "n_span (map relaid_item its) = n_span its"
  by (induction its rule: n_cur.induct) simp_all

lemma relaid_ok: "list_all desc_ok its \<Longrightarrow> list_all desc_ok (map relaid_item its)"
  by (induction its rule: n_cur.induct) (simp_all add: relaid_def)

lemma buffer_after_append:
  "buffer_after b (xs @ ys) = buffer_after (buffer_after b xs) ys"
  by (induction xs arbitrary: b) (simp_all split: option.split)

lemma buffer_rows: "buffer_after None (rows_of its) = None"
  by (induction its rule: n_cur.induct) (simp_all add: buffer_after_append)

lemma new_tag_grown_build:
  assumes "fresh b" and "list_all desc_ok its"
  shows "new_tag (grown (build b its) (new_cursor (build b its) x ori ''interact'' ''r'' ''--'')) =
           group0 (str (int (Suc (n_cur its)) + 1))"
proof -
  have "ids_upto (grown (build b its) (mk_cursor (n_cur its) ori None (d0 x))) (Suc (n_cur its))"
    using ids_upto_build [OF assms]
    by (rule ids_upto_grown_scan) (simp add: scan_id_mk_cursor d0_def)
  then show ?thesis
    unfolding new_cursor_build [OF assms] by (rule new_tag_upto)
qed

lemma load_state_build:
  assumes "fresh b"
  shows "list_all desc_ok its \<Longrightarrow>
         load_state None (rows_of its) b = build b (map relaid_item its)"
proof (induction its rule: n_cur.induct)
  case 1
  show ?case by simp
next
  case (2 d its)
  then have ok: "list_all desc_ok its" by simp
  let ?S = "build b (map relaid_item its)"
  have ih: "load_state None (rows_of its) b = ?S" using "2.IH" ok by simp
  have nt: "new_tag ?S = group0 (str (int (n_cur its) + 1))"
    using new_tag_build [OF assms relaid_ok [OF ok]] by simp
  have c1: "loaded_cursor (new_tag ?S) (drow (n_cur its) ori' d') ori so =
      mk_cursor (n_cur its) ori so (relaid d')" for ori' d' ori so
    unfolding nt by (rule loaded_cursor_drow)
  show ?case
    by (simp add: load_state_append buffer_rows ih c1)
next
  case (3 dl dh c its)
  then have ok: "list_all desc_ok its" by simp
  let ?S = "build b (map relaid_item its)"
  have ih: "load_state None (rows_of its) b = ?S" using "3.IH" ok by simp
  have nt: "new_tag ?S = group0 (str (int (n_cur its) + 1))"
    using new_tag_build [OF assms relaid_ok [OF ok]] by simp
  have nt2: "new_tag (grown ?S (new_cursor ?S x ori ''interact'' ''r'' ''--'')) =
      group0 (str (int (Suc (n_cur its)) + 1))" for x ori
    using new_tag_grown_build [OF assms relaid_ok [OF ok]] by simp
  have len: "length (cursors ?S) = n_cur its" "length (spans ?S) = n_span its"
    using build_sizes(1,2) [OF assms, of "map relaid_item its"] by simp_all
  have c1: "loaded_cursor (new_tag ?S) (drow (n_cur its) ori' d') ori so =
      mk_cursor (n_cur its) ori so (relaid d')" for ori' d' ori so
    unfolding nt by (rule loaded_cursor_drow)
  have c2: "loaded_cursor (new_tag (grown ?S (new_cursor ?S x ori1 ''interact'' ''r'' ''--'')))
        (drow (Suc (n_cur its)) ori' d') ori so =
      mk_cursor (Suc (n_cur its)) ori so (relaid d')" for x ori1 ori' d' ori so
    unfolding nt2 by (rule loaded_cursor_drow)
  show ?case
    by (simp add: load_state_append buffer_rows ih span_loaded_def c1 c2 len mk_span_def)
qed


lemma cursors_relaid:
  "map (\<lambda>c. c\<lparr>ls := []\<rparr>) (cursors (build b (map relaid_item its))) =
   map (\<lambda>c. c\<lparr>ls := []\<rparr>) (cursors (build b' its))" if "cursors b = cursors b'"
  using that
  by (induction its rule: n_cur.induct) (simp_all add: grown_def ext2_def mk_cursor_def relaid_def)

lemma spans_relaid:
  "map (\<lambda>sp. sp\<lparr>span_color := []\<rparr>) (spans (build b (map relaid_item its))) =
   map (\<lambda>sp. sp\<lparr>span_color := []\<rparr>) (spans (build b' its))" if "spans b = spans b'"
  using that
  by (induction its rule: n_cur.induct) (simp_all add: grown_def ext2_def mk_span_def)

lemma spans_bound:
  assumes "fresh b"
  shows "sp \<in> set (spans (build b its)) \<Longrightarrow> span_high sp < n_cur its"
proof (induction its rule: n_cur.induct)
  case 1
  with assms show ?case by (simp add: fresh_def)
next
  case (2 d its)
  then show ?case by (simp add: grown_def less_Suc_eq)
next
  case (3 dl dh c its)
  then show ?case by (auto simp: ext2_def mk_span_def less_Suc_eq)
qed

lemma span_colors_relaid:
  assumes "fresh b" and "fresh b'"
  shows "map span_color (spans (build b' (map relaid_item its))) =
         map (\<lambda>sp. color (cur (build b its) (span_high sp))) (spans (build b its))"
proof (induction its rule: n_cur.induct)
  case 1
  from assms show ?case by (simp add: fresh_def)
next
  case (2 d its)
  let ?A = "build b its"
  have "map (\<lambda>sp. color (cur (grown ?A (mk_cursor (n_cur its) ''vertical'' None d)) (span_high sp)))
          (spans ?A) =
        map (\<lambda>sp. color (cur ?A (span_high sp))) (spans ?A)"
  proof (rule map_cong [OF refl])
    fix sp assume "sp \<in> set (spans ?A)"
    then have "span_high sp < length (cursors ?A)"
      using spans_bound [OF assms(1)] build_sizes(1) [OF assms(1), of its] by simp
    then show "color (cur (grown ?A (mk_cursor (n_cur its) ''vertical'' None d)) (span_high sp)) =
        color (cur ?A (span_high sp))"
      by (simp add: cur_grown(1))
  qed
  with 2 show ?case by (simp add: grown_def)
next
  case (3 dl dh c its)
  let ?A = "build b its"
  let ?a = "mk_cursor (n_cur its) ''vertspan'' (Some (n_span its)) dl"
  let ?b = "mk_cursor (Suc (n_cur its)) ''vertspan'' (Some (n_span its)) dh"
  let ?sp = "mk_span (n_cur its) dl dh c"
  note len = build_sizes(1) [OF assms(1), of its]
  have old: "map (\<lambda>sp. color (cur (ext2 ?A ?a ?b ?sp) (span_high sp))) (spans ?A) =
        map (\<lambda>sp. color (cur ?A (span_high sp))) (spans ?A)"
  proof (rule map_cong [OF refl])
    fix sp assume "sp \<in> set (spans ?A)"
    then have "span_high sp < length (cursors ?A)"
      using spans_bound [OF assms(1)] len by simp
    then show "color (cur (ext2 ?A ?a ?b ?sp) (span_high sp)) = color (cur ?A (span_high sp))"
      by (simp add: cur_ext2_old)
  qed
  have new: "color (cur (ext2 ?A ?a ?b ?sp) (span_high ?sp)) = d_color dh"
    using ext2_read(2) [where ax = ?A] len by (simp add: mk_span_def mk_cursor_def)
  have "spans (ext2 ?A ?a ?b ?sp) = spans ?A @ [?sp]" by (simp add: ext2_def)
  with 3 old new show ?case by (simp add: ext2_def mk_span_def)
qed

lemma set_tag_empty: "set_tag h (Some []) ax = set_tag h None ax"
  by (simp add: set_tag_def Let_def split: option.split)

lemma initcur_as_written: "as_written r r' \<Longrightarrow> initcur h r' ax = initcur h r ax"
  by (auto simp: as_written_def initcur_def set_tag_empty)

lemma load_rows_as_written:
  "list_all2 as_written rs rs' \<Longrightarrow> rel_option as_written lr lr' \<Longrightarrow>
   load_rows lr' rs' ax = load_rows lr rs ax"
proof (induction arbitrary: lr lr' ax rule: list_all2_induct)
  case Nil
  show ?case by simp
next
  case (Cons r rs r' rs')
  from Cons.hyps(1) have f: "row_type r' = row_type r" "row_xpos r' = row_xpos r"
    "row_color r' = row_color r"
    by (auto simp: as_written_def)
  note ic = initcur_as_written [OF Cons.hyps(1)]
  note ih = Cons.IH
  show ?case
  proof (cases "row_type r = ''vertical''")
    case True
    then show ?thesis
      by (simp add: f ic ih [OF Cons.prems] split: sum.split prod.split)
  next
    case nv: False
    show ?thesis
    proof (cases "row_type r = ''vertspan''")
      case False
      with nv show ?thesis by (simp add: f ih [OF Cons.prems])
    next
      case True
      show ?thesis
      proof (cases lr)
        case None
        with Cons.prems have "lr' = None" by simp
        moreover have "rel_option as_written (Some r) (Some r')"
          using Cons.hyps(1) by simp
        ultimately show ?thesis
          using True None nv by (simp add: f ih)
      next
        case (Some x)
        with Cons.prems obtain x' where x': "lr' = Some x'" and xx: "as_written x x'"
          by (cases lr') simp_all
        from xx have g: "row_xpos x' = row_xpos x" by (auto simp: as_written_def)
        have n: "rel_option as_written None None" by simp
        show ?thesis
          using True Some x' nv
          by (simp add: f g ic initcur_as_written [OF xx] ih [OF n] Let_def
              split: sum.split prod.split)
      qed
    qed
  qed
qed

text \<open>
  The table that the reader returns when it finds no string in the tag column: every
  tag that was written is empty, or is a text that the reader takes for a missing
  value.
\<close>

definition untagged :: "row list \<Rightarrow> row list" where
  "untagged rows = map (\<lambda>r. r\<lparr>row_tag := None\<rparr>) rows"

lemma as_written_untagged:
  "\<forall>r \<in> set rows. row_tag r = Some [] \<Longrightarrow> list_all2 as_written rows (untagged rows)"
  by (induction rows) (simp_all add: untagged_def as_written_def)

lemma loadcurinfo_build:
  assumes "fresh b'" and "list_all desc_ok its" and "list_all2 as_written (rows_of its) rows'"
  shows "loadcurinfo b' rows' = Inr (build b' (map relaid_item its))"
proof -
  have ok: "handles_ok b'"
    using assms(1) by (simp add: handles_ok_def fresh_def curlist_of_def)
  have "rel_option as_written None None" by simp
  with assms(3) have "load_rows None rows' b' = load_rows None (rows_of its) b'"
    by (rule load_rows_as_written)
  then show ?thesis
    by (simp add: loadcurinfo_def load_rows_eq [OF ok] load_state_build [OF assms(1,2)])
qed

text \<open>
  The positions of the two cursors of each span, and a scenario: two spans are
  placed and the high cursor of the first gets the tag \<open>(9)\<close>.
\<close>

definition span_ends :: "axes \<Rightarrow> (real \<times> real) list" where
  "span_ends ax =
     map (\<lambda>sp. (xpos (cur ax (span_low sp)), xpos (cur ax (span_high sp)))) (spans ax)"

definition two_spans_tagged :: "error + axes" where
  "two_spans_tagged =
     bind (placespan new_axes (Pair (- 3) 3)) (\<lambda>sa.
     bind (placespan (snd sa) (Pair 10 20)) (\<lambda>sb.
       set_tag 1 (Some ''(9)'') (snd sb)))"

lemma fresh_new_axes: "fresh new_axes"
  by (simp add: fresh_def new_axes_def)

lemma one_span_build: "one_span lo hi = build new_axes [ISpan (d0 lo) (d0 hi) ''r'']"
  using placespan_build_pair [OF fresh_new_axes, of "[]" lo hi]
  by (simp add: placespan_new_axes)

lemma one_cursor_build: "one_cursor x = build new_axes [ICur (d0 x)]"
  by (simp add: one_cursor_def grown_def mk_cursor_def d0_def new_axes_def curlist_of_def
      group0_def str_small)




end
